theory Spec2Isabelle
  imports Complex_Main "HOL-Library.Word"
begin

unbundle bit_operations_syntax

section \<open>Entity communication database\<close>

text \<open>
  Modelled from the spec: the declaration of \<^verbatim>\<open>EntityCommInfo\<close> and its ordering are not
  among the sources. After the specification (section 3) a record holds a vector of
  (protocol id, process) pairs kept sorted for binary search; the pairs are ordered by
  ghosting ordinal first and process second. The ordinal is an \<^verbatim>\<open>unsigned\<close>, so
  \<^verbatim>\<open>ordinal + 1\<close> wraps at 32 bits.
\<close>

record EntityCommInfo =
  ghost_id :: "32 word"
  proc :: int

definition info_less :: "EntityCommInfo \<Rightarrow> EntityCommInfo \<Rightarrow> bool" where
  "info_less a b \<longleftrightarrow>
     ghost_id a < ghost_id b \<or> (ghost_id a = ghost_id b \<and> proc a < proc b)"

record EntityComm =
  isShared :: bool
  isGhost :: bool
  comm_map :: "EntityCommInfo list"

type_synonym EntityKey = nat

datatype listener_event =
    RemovedGhost EntityKey "32 word" int
  | RemovedKey EntityKey

text \<open>
  The database: \<^verbatim>\<open>m_comm_map\<close> in iteration order (keys are unique), the cached
  iterator \<^verbatim>\<open>m_last_lookup\<close> (\<open>None\<close> is \<^verbatim>\<open>end()\<close>, otherwise the key of the
  element it points to), whether a change listener is registered, and what the
  listener has been told so far.
\<close>

record EntityCommDatabase =
  m_comm_map :: "(EntityKey \<times> EntityComm) list"
  m_last_lookup :: "EntityKey option"
  has_listener :: bool
  notified :: "listener_event list"

definition empty_comm :: EntityComm where
  "empty_comm = \<lparr>isShared = False, isGhost = False, comm_map = []\<rparr>"

text \<open>The record the cached iterator points to.\<close>

definition last_record :: "EntityCommDatabase \<Rightarrow> EntityComm" where
  "last_record db =
     (case m_last_lookup db of
        None \<Rightarrow> empty_comm
      | Some k \<Rightarrow> (case map_of (m_comm_map db) k of None \<Rightarrow> empty_comm | Some r \<Rightarrow> r))"

definition set_last_record :: "EntityCommDatabase \<Rightarrow> EntityComm \<Rightarrow> EntityCommDatabase" where
  "set_last_record db r =
     (case m_last_lookup db of
        None \<Rightarrow> db
      | Some k \<Rightarrow> db\<lparr>m_comm_map := map (\<lambda>(k', r'). if k' = k then (k', r) else (k', r')) (m_comm_map db)\<rparr>)"

text \<open>\<^verbatim>\<open>cached_find\<close>: the answer and the database with the cache updated.\<close>

definition cached_find :: "EntityCommDatabase \<Rightarrow> EntityKey \<Rightarrow> bool \<times> EntityCommDatabase" where
  "cached_find db key =
     (if m_last_lookup db \<noteq> None \<and> m_last_lookup db = Some key then (True, db)
      else (case map_of (m_comm_map db) key of
              None \<Rightarrow> (False, db)
            | Some r \<Rightarrow> (True, db\<lparr>m_last_lookup := Some key\<rparr>)))"

text \<open>\<^verbatim>\<open>comm(key)\<close>: the view of the record's vector, empty on a miss.\<close>

definition comm :: "EntityCommDatabase \<Rightarrow> EntityKey \<Rightarrow> EntityCommInfo list \<times> EntityCommDatabase" where
  "comm db key =
     (case cached_find db key of
        (False, db') \<Rightarrow> ([], db')
      | (True, db') \<Rightarrow> (comm_map (last_record db'), db'))"

text \<open>
  \<^verbatim>\<open>std::lower_bound\<close> on a vector ordered by \<open>info_less\<close>: the index of the first
  element that is not less than the value.
\<close>

definition lower_bound :: "EntityCommInfo list \<Rightarrow> EntityCommInfo \<Rightarrow> nat" where
  "lower_bound xs v = length (takeWhile (\<lambda>x. info_less x v) xs)"

text \<open>
  \<^verbatim>\<open>m_comm_map.erase(m_last_lookup)\<close>: removes the element and returns the iterator to
  the one after it.
\<close>

fun next_key :: "(EntityKey \<times> EntityComm) list \<Rightarrow> EntityKey \<Rightarrow> EntityKey option" where
  "next_key [] k = None"
| "next_key ((k', r) # rest) k =
     (if k' = k then (case rest of [] \<Rightarrow> None | (k'', r'') # rest' \<Rightarrow> Some k'')
      else next_key rest k)"

definition erase_last_lookup :: "EntityCommDatabase \<Rightarrow> EntityCommDatabase" where
  "erase_last_lookup db =
     (case m_last_lookup db of
        None \<Rightarrow> db
      | Some k \<Rightarrow> db\<lparr>m_comm_map := filter (\<lambda>(k', r). k' \<noteq> k) (m_comm_map db),
                     m_last_lookup := next_key (m_comm_map db) k\<rparr>)"

definition notify :: "EntityCommDatabase \<Rightarrow> listener_event list \<Rightarrow> EntityCommDatabase" where
  "notify db evs = (if has_listener db then db\<lparr>notified := notified db @ evs\<rparr> else db)"

definition internal_update_shared_ghosted :: "EntityCommDatabase \<Rightarrow> bool \<Rightarrow> EntityCommDatabase" where
  "internal_update_shared_ghosted db removedSharingProc =
     (let r = last_record db; cm = comm_map r in
      if removedSharingProc
      then set_last_record db (r\<lparr>isShared := (cm \<noteq> [] \<and> ghost_id (hd cm) = 0)\<rparr>)
      else set_last_record db (r\<lparr>isGhost := list_ex (\<lambda>info. ghost_id info > 0) cm\<rparr>))"

text \<open>
  The common tail of both \<^verbatim>\<open>erase\<close> overloads once the range \<open>[i, e)\<close> to remove is
  known and not empty: tell the listener about each removed pair, erase the range,
  drop the record when its vector is empty, otherwise refresh the cached flags.
\<close>

definition erase_range ::
  "EntityCommDatabase \<Rightarrow> EntityKey \<Rightarrow> nat \<Rightarrow> nat \<Rightarrow> bool \<Rightarrow> EntityCommDatabase" where
  "erase_range db key i e removedSharingProc =
     (let cm = comm_map (last_record db);
          db1 = notify db (map (\<lambda>x. RemovedGhost key (ghost_id x) (proc x)) (take (e - i) (drop i cm)));
          cm' = take i cm @ drop e cm;
          db2 = set_last_record db1 ((last_record db1)\<lparr>comm_map := cm'\<rparr>)
      in if cm' = []
         then (let db3 = set_last_record db2 ((last_record db2)\<lparr>isShared := False, isGhost := False\<rparr>);
                   db4 = erase_last_lookup db3
               in notify db4 [RemovedKey key])
         else internal_update_shared_ghosted db2 removedSharingProc)"

text \<open>\<^verbatim>\<open>erase(key, val)\<close>.\<close>

definition erase_info ::
  "EntityCommDatabase \<Rightarrow> EntityKey \<Rightarrow> EntityCommInfo \<Rightarrow> bool \<times> EntityCommDatabase" where
  "erase_info db key val =
     (case cached_find db key of
        (False, db') \<Rightarrow> (False, db')
      | (True, db') \<Rightarrow>
          (let cm = comm_map (last_record db');
               i = lower_bound cm val;
               result = (i \<noteq> length cm \<and> val = cm ! i)
           in if result then (True, erase_range db' key i (Suc i) (ghost_id val = 0))
              else (False, db')))"

text \<open>\<^verbatim>\<open>erase(key, ghost)\<close>, with the ghosting given by its ordinal.\<close>

definition erase_ghost ::
  "EntityCommDatabase \<Rightarrow> EntityKey \<Rightarrow> 32 word \<Rightarrow> bool \<times> EntityCommDatabase" where
  "erase_ghost db key ordinal =
     (case cached_find db key of
        (False, db') \<Rightarrow> (False, db')
      | (True, db') \<Rightarrow>
          (let cm = comm_map (last_record db');
               s_begin = \<lparr>ghost_id = ordinal, proc = 0\<rparr>;
               s_end = \<lparr>ghost_id = ordinal + 1, proc = 0\<rparr>;
               i = lower_bound cm s_begin;
               e = i + lower_bound (drop i cm) s_end;
               result = (i \<noteq> e)
           in if result then (True, erase_range db' key i e (ordinal = 0))
              else (False, db')))"

text \<open>
  Well-formed databases: keys are unique, the cached iterator is \<^verbatim>\<open>end()\<close> or points
  into the map, and every vector is in order, as \<^verbatim>\<open>insert\<close> keeps it and as
  \<^verbatim>\<open>std::lower_bound\<close> needs it.
\<close>

definition wf_db :: "EntityCommDatabase \<Rightarrow> bool" where
  "wf_db db \<longleftrightarrow>
     distinct (map fst (m_comm_map db)) \<and>
     (case m_last_lookup db of None \<Rightarrow> True | Some k \<Rightarrow> k \<in> set (map fst (m_comm_map db))) \<and>
     list_all (\<lambda>(k, r). sorted_wrt info_less (comm_map r)) (m_comm_map db)"

text \<open>A database with two records, used to run the operations on concrete data.\<close>

definition db_ex :: EntityCommDatabase where
  "db_ex = \<lparr>m_comm_map =
       [(3, \<lparr>isShared = True, isGhost = False, comm_map = [\<lparr>ghost_id = 0, proc = 1\<rparr>]\<rparr>),
        (7, \<lparr>isShared = False, isGhost = True,
             comm_map = [\<lparr>ghost_id = 2, proc = 1\<rparr>, \<lparr>ghost_id = 2, proc = 4\<rparr>]\<rparr>)],
     m_last_lookup = None, has_listener = True, notified = []\<rparr>"


section \<open>Mesh modification and the status of a decomposition\<close>

text \<open>
  Mesh entities are identified with their ids. What \<^verbatim>\<open>modify_mesh\<close> asks of the mesh
  database is collected in a record of queries: entity validity, the elements reached
  through relations from a set of nodes, \<^verbatim>\<open>elem_io_part_changed\<close> for an entity with a
  phase, and the elements currently in the child part.
\<close>

type_synonym Entity = nat
type_synonym PhaseTag = nat

record BulkData =
  is_valid :: "Entity \<Rightarrow> bool"
  get_entities_through_relations :: "Entity list \<Rightarrow> Entity list"
  elem_io_part_changed :: "Entity \<Rightarrow> PhaseTag \<Rightarrow> bool"
  child_part_elements :: "Entity list"

record SubElement =
  sub_nodes :: "Entity list"
  sub_phase :: PhaseTag
  sub_entity :: Entity

record Mesh_Element =
  elem_entity :: Entity
  elem_phase :: PhaseTag
  conformal_subelems :: "SubElement list"

text \<open>
  The inner loop of \<^verbatim>\<open>set_entities_for_existing_child_elements\<close> over the conformal
  sub-elements of one element; the flag is \<^verbatim>\<open>all_element_entities_are_set_and_correct\<close>.
  (The \<^verbatim>\<open>ThrowAssert\<close>s of this function are debug-only and are left out.)
\<close>

fun set_entities_for_subelems ::
  "BulkData \<Rightarrow> SubElement list \<Rightarrow> bool \<Rightarrow> SubElement list \<times> bool" where
  "set_entities_for_subelems bulk [] ok = ([], ok)"
| "set_entities_for_subelems bulk (s # ss) ok =
     (let subelem_node_entities = filter (is_valid bulk) (sub_nodes s);
          existing_elems =
            (if length subelem_node_entities = length (sub_nodes s)
             then get_entities_through_relations bulk subelem_node_entities else [])
      in case existing_elems of
           [] \<Rightarrow> (let (ss', ok') = set_entities_for_subelems bulk ss False in (s # ss', ok'))
         | e # _ \<Rightarrow>
             (let s' = s\<lparr>sub_entity := e\<rparr>;
                  ok1 = (if ok \<and> elem_io_part_changed bulk (sub_entity s') (sub_phase s')
                         then False else ok);
                  (ss', ok') = set_entities_for_subelems bulk ss ok1
              in (s' # ss', ok')))"

fun set_entities_for_elems ::
  "BulkData \<Rightarrow> Mesh_Element list \<Rightarrow> bool \<Rightarrow> Mesh_Element list \<times> bool" where
  "set_entities_for_elems bulk [] ok = ([], ok)"
| "set_entities_for_elems bulk (el # els) ok =
     (if conformal_subelems el \<noteq> []
      then (let (subs', ok1) = set_entities_for_subelems bulk (conformal_subelems el) ok;
                (els', ok') = set_entities_for_elems bulk els ok1
            in (el\<lparr>conformal_subelems := subs'\<rparr> # els', ok'))
      else (let ok1 = (if ok \<and> elem_io_part_changed bulk (elem_entity el) (elem_phase el)
                       then False else ok);
                (els', ok') = set_entities_for_elems bulk els ok1
            in (el # els', ok')))"

text \<open>\<^verbatim>\<open>set_entities_for_existing_child_elements\<close>: without an old mesh it answers false at once.\<close>

definition set_entities_for_existing_child_elements ::
  "BulkData \<Rightarrow> bool \<Rightarrow> Mesh_Element list \<Rightarrow> Mesh_Element list \<times> bool" where
  "set_entities_for_existing_child_elements bulk have_old_mesh elements =
     (if \<not> have_old_mesh then (elements, False)
      else set_entities_for_elems bulk elements True)"

text \<open>
  \<^verbatim>\<open>get_unused_old_child_elements\<close>: the elements of the child part that are the entity
  of no conformal sub-element of this snapshot (\<^verbatim>\<open>find_child_element\<close> finds none).
\<close>

definition find_child_element :: "Mesh_Element list \<Rightarrow> Entity \<Rightarrow> SubElement option" where
  "find_child_element elements e =
     find (\<lambda>s. sub_entity s = e) (concat (map conformal_subelems elements))"

definition get_unused_old_child_elements :: "BulkData \<Rightarrow> Mesh_Element list \<Rightarrow> Entity list" where
  "get_unused_old_child_elements bulk elements =
     filter (\<lambda>e. find_child_element elements e = None) (child_part_elements bulk)"

text \<open>
  The steps of the modification cycle of \<^verbatim>\<open>modify_mesh\<close>, in the order they run.
\<close>

datatype mesh_op =
    ModificationBegin
  | ModificationEnd
  | CreateNodeEntities
  | CreateElementAndSideEntities
  | DestroyCustomGhostings
  | DeleteMeshEntities "Entity list"
  | AddPossibleInterfaceSides
  | BatchCreateSides
  | UpdateNodeActivation
  | UpdateElementSideParts
  | InduceTopologyNodesets

text \<open>
  \<^verbatim>\<open>stk::is_true_on_any_proc\<close>: the local value or the value of some other processor.
\<close>

definition is_true_on_any_proc :: "bool list \<Rightarrow> bool \<Rightarrow> bool" where
  "is_true_on_any_proc others local \<longleftrightarrow> local \<or> list_ex (\<lambda>b. b) others"

text \<open>
  \<^verbatim>\<open>modify_mesh\<close>: whether the modification was needed, with the steps it ran.
  \<open>level\<close> is \<^verbatim>\<open>get_interface_maximum_refinement_level()\<close>, \<open>others\<close> what the other
  processors contribute to the reduction.
\<close>

definition modify_mesh ::
  "BulkData \<Rightarrow> int \<Rightarrow> bool \<Rightarrow> bool list \<Rightarrow> Mesh_Element list \<Rightarrow> bool \<times> mesh_op list" where
  "modify_mesh bulk level have_old_mesh others elements =
     (let (elements', all_elems_are_set_and_correct) =
            set_entities_for_existing_child_elements bulk have_old_mesh elements;
          unused_old_child_elems = get_unused_old_child_elements bulk elements';
          modificationIsNeeded =
            (level > 0 \<or>
             is_true_on_any_proc others
               (\<not> all_elems_are_set_and_correct \<or> unused_old_child_elems \<noteq> []))
      in if modificationIsNeeded
         then (True,
               [ModificationBegin, CreateNodeEntities, CreateElementAndSideEntities,
                DestroyCustomGhostings, DeleteMeshEntities unused_old_child_elems,
                ModificationEnd, AddPossibleInterfaceSides, BatchCreateSides,
                ModificationBegin, UpdateNodeActivation, UpdateElementSideParts,
                ModificationEnd, InduceTopologyNodesets])
         else (False, []))"

text \<open>
  The status \<^verbatim>\<open>decompose_mesh\<close> returns. The two flags are declared in a header that is
  not part of the sources at hand, so they are arguments here.
\<close>

definition decompose_mesh_status ::
  "32 word \<Rightarrow> 32 word \<Rightarrow> BulkData \<Rightarrow> int \<Rightarrow> bool \<Rightarrow> bool list \<Rightarrow> Mesh_Element list
     \<Rightarrow> 32 word \<times> mesh_op list" where
  "decompose_mesh_status COORDINATES_MAY_BE_MODIFIED MESH_MODIFIED bulk level have_old_mesh others elements =
     (let (mesh_modified, ops) = modify_mesh bulk level have_old_mesh others elements;
          status = (if mesh_modified then COORDINATES_MAY_BE_MODIFIED OR MESH_MODIFIED
                    else COORDINATES_MAY_BE_MODIFIED)
      in (status, ops))"

text \<open>
  A mesh decomposed before and left alone since: one parent element cut into two
  sub-elements, both already in the mesh with the right part, and no other child element.
\<close>

definition bulk_ex :: BulkData where
  "bulk_ex = \<lparr>is_valid = (\<lambda>e. e \<noteq> 0),
      get_entities_through_relations =
        (\<lambda>ns. if ns = [1, 2, 5] then [11] else if ns = [2, 3, 5] then [12] else []),
      elem_io_part_changed = (\<lambda>e p. False),
      child_part_elements = [11, 12]\<rparr>"

definition elements_ex :: "Mesh_Element list" where
  "elements_ex =
     [\<lparr>elem_entity = 10, elem_phase = 0,
       conformal_subelems =
         [\<lparr>sub_nodes = [1, 2, 5], sub_phase = 1, sub_entity = 0\<rparr>,
          \<lparr>sub_nodes = [2, 3, 5], sub_phase = 2, sub_entity = 0\<rparr>]\<rparr>]"


section \<open>The chain of retained snapshots\<close>

text \<open>
  Snapshots live in a store and are referred to by address, as the shared pointers
  \<^verbatim>\<open>the_new_mesh\<close> and \<^verbatim>\<open>my_old_mesh\<close> do; allocation takes the next free address. Of a
  snapshot only the back pointer and the stash step count matter here.
\<close>

type_synonym addr = nat

record CDMesh =
  my_old_mesh :: "addr option"
  my_stash_step_count :: int

record snapshots =
  store :: "CDMesh list"
  the_new_mesh :: "addr option"

datatype failure = RequireFailed | NullDereference

text \<open>
  The constructor \<^verbatim>\<open>CDMesh(mesh, old_mesh)\<close> under \<^verbatim>\<open>std::make_shared\<close>: the member
  initialisers, then the body, which resets the old mesh's own back pointer.
\<close>

definition CDMesh_ctor :: "CDMesh list \<Rightarrow> addr option \<Rightarrow> CDMesh list \<times> addr" where
  "CDMesh_ctor h old_mesh =
     (let this = length h;
          h1 = h @ [\<lparr>my_old_mesh = old_mesh, my_stash_step_count = - 1\<rparr>]
      in case my_old_mesh (h1 ! this) of
           None \<Rightarrow> (h1, this)
         | Some old \<Rightarrow> (h1[old := (h1 ! old)\<lparr>my_old_mesh := None\<rparr>], this))"

text \<open>\<^verbatim>\<open>stash_field_data(step_count, new_mesh)\<close>, as far as the snapshot chain sees it.\<close>

definition stash_field_data :: "CDMesh list \<Rightarrow> addr \<Rightarrow> int \<Rightarrow> CDMesh list" where
  "stash_field_data h a step_count = h[a := (h ! a)\<lparr>my_stash_step_count := step_count\<rparr>]"

text \<open>
  \<^verbatim>\<open>build_and_stash_old_mesh(stepCount)\<close> on the snapshot at \<open>this\<close>; \<open>level\<close> is the
  interface maximum refinement level.
\<close>

definition build_and_stash_old_mesh :: "CDMesh list \<Rightarrow> addr \<Rightarrow> int \<Rightarrow> int \<Rightarrow> CDMesh list" where
  "build_and_stash_old_mesh h this level stepCount =
     (case my_old_mesh (h ! this) of
        None \<Rightarrow>
          (let (h1, old) = CDMesh_ctor h None;
               h2 = h1[this := (h1 ! this)\<lparr>my_old_mesh := Some old\<rparr>]
           in stash_field_data h2 old (- 1))
      | Some old0 \<Rightarrow>
          (if level > 0
           then (let (h1, old) = CDMesh_ctor h None;
                     h2 = h1[this := (h1 ! this)\<lparr>my_old_mesh := Some old\<rparr>]
                 in stash_field_data h2 old stepCount)
           else stash_field_data h old0 stepCount))"

text \<open>
  The places that assign \<^verbatim>\<open>the_new_mesh\<close> or a back pointer, one step each:
  the first block of \<^verbatim>\<open>decompose_mesh\<close>, its call of \<^verbatim>\<open>build_and_stash_old_mesh\<close>,
  \<^verbatim>\<open>handle_possible_failed_time_step\<close> and \<^verbatim>\<open>rebuild_from_restart_mesh\<close>.
\<close>

datatype snapshot_op =
    NewSnapshot
  | BuildAndStash int int
  | HandlePossibleFailedTimeStep int
  | RebuildFromRestartMesh

fun snapshot_step :: "snapshot_op \<Rightarrow> snapshots \<Rightarrow> failure + snapshots" where
  "snapshot_step NewSnapshot s =
     (let (h, a) = CDMesh_ctor (store s) (the_new_mesh s)
      in Inr \<lparr>store = h, the_new_mesh = Some a\<rparr>)"
| "snapshot_step (BuildAndStash level stepCount) s =
     (case the_new_mesh s of
        None \<Rightarrow> Inl NullDereference
      | Some this \<Rightarrow> Inr (s\<lparr>store := build_and_stash_old_mesh (store s) this level stepCount\<rparr>))"
| "snapshot_step (HandlePossibleFailedTimeStep step_count) s =
     (case the_new_mesh s of
        None \<Rightarrow> Inr s
      | Some new \<Rightarrow>
          (let oldMesh = my_old_mesh (store s ! new);
               noSuccessfulDecompositionSinceLastFailedStep = (oldMesh = None);
               lastStepFailed =
                 (case oldMesh of None \<Rightarrow> False
                  | Some old \<Rightarrow> my_stash_step_count (store s ! old) = step_count);
               restoreMesh = (lastStepFailed \<or> noSuccessfulDecompositionSinceLastFailedStep)
           in if restoreMesh
              then (let (h, a) = CDMesh_ctor (store s) None
                    in Inr \<lparr>store = h, the_new_mesh = Some a\<rparr>)
              else Inr s))"
| "snapshot_step RebuildFromRestartMesh s =
     (if the_new_mesh s \<noteq> None then Inl RequireFailed
      else (let (h, a) = CDMesh_ctor (store s) (the_new_mesh s)
            in Inr \<lparr>store = h, the_new_mesh = Some a\<rparr>))"

fun snapshot_run :: "snapshot_op list \<Rightarrow> snapshots \<Rightarrow> failure + snapshots" where
  "snapshot_run [] s = Inr s"
| "snapshot_run (op # ops) s =
     (case snapshot_step op s of Inl e \<Rightarrow> Inl e | Inr s' \<Rightarrow> snapshot_run ops s')"

text \<open>
  The snapshots reached from a pointer along the back pointers, at most \<open>n\<close> of them.
\<close>

fun chain :: "nat \<Rightarrow> CDMesh list \<Rightarrow> addr option \<Rightarrow> addr list" where
  "chain 0 h p = []"
| "chain (Suc n) h None = []"
| "chain (Suc n) h (Some a) = a # chain n h (my_old_mesh (h ! a))"

text \<open>Every pointer of a state refers to an allocated snapshot.\<close>

definition wf_snapshots :: "snapshots \<Rightarrow> bool" where
  "wf_snapshots s \<longleftrightarrow>
     (case the_new_mesh s of None \<Rightarrow> True | Some a \<Rightarrow> a < length (store s)) \<and>
     list_all (\<lambda>m. case my_old_mesh m of None \<Rightarrow> True | Some a \<Rightarrow> a < length (store s)) (store s)"

definition no_snapshots :: snapshots where
  "no_snapshots = \<lparr>store = [], the_new_mesh = None\<rparr>"

text \<open>
  The chain from \<open>p\<close> ends after at most two snapshots: the snapshot at \<open>p\<close>, if any,
  has no old mesh, or its old mesh has none.
\<close>

definition ends_within_two :: "CDMesh list \<Rightarrow> addr option \<Rightarrow> bool" where
  "ends_within_two h p =
     (case p of
        None \<Rightarrow> True
      | Some a \<Rightarrow>
          (case my_old_mesh (h ! a) of None \<Rightarrow> True | Some old \<Rightarrow> my_old_mesh (h ! old) = None))"

definition ptr_ok :: "nat \<Rightarrow> addr option \<Rightarrow> bool" where
  "ptr_ok n p = (case p of None \<Rightarrow> True | Some a \<Rightarrow> a < n)"

text \<open>A current snapshot (address 0) with its old mesh (address 1).\<close>

definition snapshots_ex :: snapshots where
  "snapshots_ex =
     \<lparr>store = [\<lparr>my_old_mesh = Some 1, my_stash_step_count = - 1\<rparr>,
               \<lparr>my_old_mesh = None, my_stash_step_count = 4\<rparr>],
      the_new_mesh = Some 0\<rparr>"


section \<open>The padding loop of the prolongation\<close>



text \<open>
  The end of a round: \<open>None\<close> when the loop is done, otherwise the new padding and
  the amount by which the bounding box is padded for the next round.
\<close>

definition growth_multiplier :: real where
  "growth_multiplier = 1.5"

definition prolongation_round ::
  "(real \<Rightarrow> real) \<Rightarrow> bool \<Rightarrow> real \<Rightarrow> bool \<times> real \<Rightarrow> (real \<times> real) option" where
  "prolongation_round rnd guess_and_check_proc_padding proc_padding obs =
     (case obs of (my_missing_remote_prolong_facets, max_cdfem_displacement) \<Rightarrow>
        if guess_and_check_proc_padding \<and>
           (my_missing_remote_prolong_facets \<or> max_cdfem_displacement > proc_padding)
        then Some (rnd (growth_multiplier * max_cdfem_displacement),
                   rnd (rnd (growth_multiplier * max_cdfem_displacement) - proc_padding))
        else None)"

text \<open>
  The \<^verbatim>\<open>while (!done)\<close> loop: the number of rounds run and the last padding, or
  \<open>None\<close> when the loop never ends.
\<close>

partial_function (option) prolongation_loop ::
  "(real \<Rightarrow> real) \<Rightarrow> (nat \<Rightarrow> real \<Rightarrow> bool \<times> real) \<Rightarrow> bool \<Rightarrow> nat \<Rightarrow> real
     \<Rightarrow> (nat \<times> real) option" where
  "prolongation_loop rnd observe guess n proc_padding =
     (case prolongation_round rnd guess proc_padding (observe n proc_padding) of
        None \<Rightarrow> Some (Suc n, proc_padding)
      | Some (new_padding, pad_by) \<Rightarrow> prolongation_loop rnd observe guess (Suc n) new_padding)"

text \<open>The padding used in round \<open>n\<close>, were the loop to get that far.\<close>

fun padding_in_round ::
  "(real \<Rightarrow> real) \<Rightarrow> (nat \<Rightarrow> real \<Rightarrow> bool \<times> real) \<Rightarrow> real \<Rightarrow> nat \<Rightarrow> real" where
  "padding_in_round rnd observe pad0 0 = pad0"
| "padding_in_round rnd observe pad0 (Suc n) =
     rnd (growth_multiplier * snd (observe n (padding_in_round rnd observe pad0 n)))"

text \<open>Round \<open>k\<close> would be the last: it asks for no repeat.\<close>

definition stable ::
  "(real \<Rightarrow> real) \<Rightarrow> (nat \<Rightarrow> real \<Rightarrow> bool \<times> real) \<Rightarrow> bool \<Rightarrow> real \<Rightarrow> nat \<Rightarrow> bool" where
  "stable rnd observe guess pad0 k \<longleftrightarrow>
     prolongation_round rnd guess (padding_in_round rnd observe pad0 k)
       (observe k (padding_in_round rnd observe pad0 k)) = None"


definition observe_missing :: "nat \<Rightarrow> real \<Rightarrow> bool \<times> real" where
  "observe_missing n pad = (True, 1)"

text \<open>
  A rounding for the examples: to the nearest multiple of \<open>2\<^sup>-\<^sup>k\<close>.
\<close>

definition round_to_places :: "nat \<Rightarrow> real \<Rightarrow> real" where
  "round_to_places k x = of_int (round (x * 2 ^ k)) / 2 ^ k"


section \<open>Creating sub-element nodes\<close>

text \<open>
  The nodes of a snapshot live in the vector \<^verbatim>\<open>nodes\<close>; a pointer to a node is its index
  there, so identity of nodes is equality of indices. A node records its kind, its owner
  element, its parents, the numbers its constructor was given (the position on the edge,
  or the weights), its mesh entity if it has one, and the children registered with it.
\<close>

datatype node_kind = MeshNode | EdgeNode | MidSideNode | SteinerNode | ChildNode

type_synonym node_ptr = nat

record SubElementNode =
  node_kind :: node_kind
  node_owner :: nat
  node_parents :: "node_ptr list"
  node_weights :: "real list"
  node_entity :: "Entity option"
  my_children :: "node_ptr list"

record node_pool =
  nodes :: "SubElementNode list"
  mesh_node_map :: "Entity \<Rightarrow> node_ptr option"
  my_midside_node_map :: "node_ptr \<times> node_ptr \<Rightarrow> node_ptr option"

definition add_managed_node :: "node_pool \<Rightarrow> SubElementNode \<Rightarrow> node_pool \<times> node_ptr" where
  "add_managed_node pool node = (pool\<lparr>nodes := nodes pool @ [node]\<rparr>, length (nodes pool))"

text \<open>
  Modelled from the spec: \<^verbatim>\<open>SubElementNode::add_child\<close> and
  \<^verbatim>\<open>SubElementNode::common_child\<close> are not among the sources. After the specification
  (4.2), a parent keeps the children registered with it, and the common child of a parent
  set is the node already created from that exact parent set, looked up by the identity
  of the parents; it is searched among the children of the first parent.
\<close>

definition add_child :: "node_pool \<Rightarrow> node_ptr \<Rightarrow> node_ptr \<Rightarrow> node_pool" where
  "add_child pool parent child =
     pool\<lparr>nodes := (nodes pool)[parent :=
       (nodes pool ! parent)\<lparr>my_children := my_children (nodes pool ! parent) @ [child]\<rparr>]\<rparr>"

definition common_child :: "node_pool \<Rightarrow> node_ptr list \<Rightarrow> node_ptr option" where
  "common_child pool parents =
     (case parents of
        [] \<Rightarrow> None
      | p # _ \<Rightarrow>
          find (\<lambda>c. set (node_parents (nodes pool ! c)) = set parents)
            (my_children (nodes pool ! p)))"

text \<open>\<^verbatim>\<open>create_mesh_node\<close>; the id of a mesh entity is the entity.\<close>

definition get_mesh_node :: "node_pool \<Rightarrow> Entity \<Rightarrow> node_ptr option" where
  "get_mesh_node pool node_id = mesh_node_map pool node_id"

definition add_managed_mesh_node :: "node_pool \<Rightarrow> SubElementNode \<Rightarrow> Entity \<Rightarrow> node_pool \<times> node_ptr" where
  "add_managed_mesh_node pool node node_id =
     (let ptr = length (nodes pool);
          pool1 = (case mesh_node_map pool node_id of
                     None \<Rightarrow> pool\<lparr>mesh_node_map := (mesh_node_map pool)(node_id \<mapsto> ptr)\<rparr>
                   | Some _ \<Rightarrow> pool)
      in (fst (add_managed_node pool1 node), ptr))"

definition create_mesh_node :: "node_pool \<Rightarrow> nat \<Rightarrow> Entity \<Rightarrow> node_pool \<times> node_ptr" where
  "create_mesh_node pool owner nodeEntity =
     (case get_mesh_node pool nodeEntity of
        Some subnode \<Rightarrow> (pool, subnode)
      | None \<Rightarrow>
          add_managed_mesh_node pool
            \<lparr>node_kind = MeshNode, node_owner = owner, node_parents = [], node_weights = [],
             node_entity = Some nodeEntity, my_children = []\<rparr> nodeEntity)"

text \<open>\<^verbatim>\<open>create_edge_node\<close>.\<close>

definition create_edge_node ::
  "node_pool \<Rightarrow> nat \<Rightarrow> node_ptr \<Rightarrow> node_ptr \<Rightarrow> real \<Rightarrow> node_pool \<times> node_ptr" where
  "create_edge_node pool owner parent1 parent2 position =
     (case common_child pool [parent1, parent2] of
        Some subnode \<Rightarrow> (pool, subnode)
      | None \<Rightarrow>
          (let (pool1, subnode) = add_managed_node pool
                 \<lparr>node_kind = EdgeNode, node_owner = owner, node_parents = [parent1, parent2],
                  node_weights = [position], node_entity = None, my_children = []\<rparr>;
               pool2 = add_child pool1 parent1 subnode;
               pool3 = add_child pool2 parent2 subnode
           in (pool3, subnode)))"

text \<open>\<^verbatim>\<open>create_midside_node\<close>; the map is keyed by the parents in pointer order.\<close>

definition create_midside_node ::
  "node_pool \<Rightarrow> nat \<Rightarrow> node_ptr \<Rightarrow> node_ptr \<Rightarrow> Entity option \<Rightarrow> node_pool \<times> node_ptr" where
  "create_midside_node pool owner parent1 parent2 entity =
     (let parents = (if parent1 < parent2 then (parent1, parent2) else (parent2, parent1))
      in case my_midside_node_map pool parents of
           Some subnode \<Rightarrow> (pool, subnode)
         | None \<Rightarrow>
             (let (pool1, subnode) = add_managed_node pool
                    \<lparr>node_kind = MidSideNode, node_owner = owner,
                     node_parents = [parent1, parent2], node_weights = [],
                     node_entity = entity, my_children = []\<rparr>
              in (pool1\<lparr>my_midside_node_map := (my_midside_node_map pool1)(parents \<mapsto> subnode)\<rparr>,
                  subnode)))"

text \<open>\<^verbatim>\<open>create_steiner_node\<close>.\<close>

definition create_steiner_node ::
  "node_pool \<Rightarrow> nat \<Rightarrow> node_ptr list \<Rightarrow> real list \<Rightarrow> node_pool \<times> node_ptr" where
  "create_steiner_node pool owner parents weights =
     add_managed_node pool
       \<lparr>node_kind = SteinerNode, node_owner = owner, node_parents = parents,
        node_weights = weights, node_entity = None, my_children = []\<rparr>"

text \<open>\<^verbatim>\<open>create_child_internal_or_face_node\<close>.\<close>

definition create_child_internal_or_face_node ::
  "node_pool \<Rightarrow> nat \<Rightarrow> node_ptr list \<Rightarrow> real list \<Rightarrow> node_pool \<times> node_ptr" where
  "create_child_internal_or_face_node pool owner parents weights =
     (case common_child pool parents of
        Some subnode \<Rightarrow> (pool, subnode)
      | None \<Rightarrow>
          (let (pool1, subnode) = add_managed_node pool
                 \<lparr>node_kind = ChildNode, node_owner = owner, node_parents = parents,
                  node_weights = weights, node_entity = None, my_children = []\<rparr>
           in (foldl (\<lambda>pl parent. add_child pl parent subnode) pool1 parents, subnode)))"

text \<open>
  A request for a node, by the function that serves it, and the function of the request.
\<close>

datatype node_request =
    MeshNodeRequest nat Entity
  | EdgeNodeRequest nat node_ptr node_ptr real
  | MidSideNodeRequest nat node_ptr node_ptr "Entity option"
  | SteinerNodeRequest nat "node_ptr list" "real list"
  | ChildNodeRequest nat "node_ptr list" "real list"

fun create_node :: "node_pool \<Rightarrow> node_request \<Rightarrow> node_pool \<times> node_ptr" where
  "create_node pool (MeshNodeRequest owner nodeEntity) = create_mesh_node pool owner nodeEntity"
| "create_node pool (EdgeNodeRequest owner parent1 parent2 position) =
     create_edge_node pool owner parent1 parent2 position"
| "create_node pool (MidSideNodeRequest owner parent1 parent2 entity) =
     create_midside_node pool owner parent1 parent2 entity"
| "create_node pool (SteinerNodeRequest owner parents weights) =
     create_steiner_node pool owner parents weights"
| "create_node pool (ChildNodeRequest owner parents weights) =
     create_child_internal_or_face_node pool owner parents weights"

fun request_parents :: "node_request \<Rightarrow> node_ptr list" where
  "request_parents (MeshNodeRequest owner nodeEntity) = []"
| "request_parents (EdgeNodeRequest owner parent1 parent2 position) = [parent1, parent2]"
| "request_parents (MidSideNodeRequest owner parent1 parent2 entity) = [parent1, parent2]"
| "request_parents (SteinerNodeRequest owner parents weights) = parents"
| "request_parents (ChildNodeRequest owner parents weights) = parents"

text \<open>
  A request can be made of a pool when the parents it names are nodes of the pool (they
  are pointers to nodes in the source) and, for a child node, there is a parent.
\<close>

definition request_ok :: "node_pool \<Rightarrow> node_request \<Rightarrow> bool" where
  "request_ok pool r \<longleftrightarrow>
     list_all (\<lambda>p. p < length (nodes pool)) (request_parents r) \<and>
     (case r of ChildNodeRequest owner parents weights \<Rightarrow> parents \<noteq> [] | _ \<Rightarrow> True)"

text \<open>A run of requests, one after the other; \<open>None\<close> when one of them cannot be made.\<close>

fun create_nodes :: "node_pool \<Rightarrow> node_request list \<Rightarrow> node_pool option" where
  "create_nodes pool [] = Some pool"
| "create_nodes pool (r # rs) =
     (if request_ok pool r then create_nodes (fst (create_node pool r)) rs else None)"

text \<open>
  Two requests with the same creation rule and the same parent set (for a mesh node, the
  same mesh entity); the owner, the position, the weights and the entity of a mid-side
  node play no part.
\<close>

fun same_request :: "node_request \<Rightarrow> node_request \<Rightarrow> bool" where
  "same_request (MeshNodeRequest owner e) (MeshNodeRequest owner' e') \<longleftrightarrow> e = e'"
| "same_request (EdgeNodeRequest owner p1 p2 position) (EdgeNodeRequest owner' q1 q2 position') \<longleftrightarrow>
     {p1, p2} = {q1, q2}"
| "same_request (MidSideNodeRequest owner p1 p2 entity) (MidSideNodeRequest owner' q1 q2 entity') \<longleftrightarrow>
     {p1, p2} = {q1, q2}"
| "same_request (SteinerNodeRequest owner ps weights) (SteinerNodeRequest owner' qs weights') \<longleftrightarrow>
     set ps = set qs"
| "same_request (ChildNodeRequest owner ps weights) (ChildNodeRequest owner' qs weights') \<longleftrightarrow>
     set ps = set qs"
| "same_request r r' \<longleftrightarrow> False"

fun is_steiner :: "node_request \<Rightarrow> bool" where
  "is_steiner (SteinerNodeRequest owner ps weights) = True"
| "is_steiner r = False"

text \<open>
  The nodes registered as a child with some node. In a well-formed pool each of them is
  a node of the pool whose parents are nodes of the pool and have it registered, and no
  two of them have the same parent set.
\<close>

definition registered_children :: "node_pool \<Rightarrow> node_ptr list" where
  "registered_children pool = concat (map my_children (nodes pool))"

definition wf_pool :: "node_pool \<Rightarrow> bool" where
  "wf_pool pool \<longleftrightarrow>
     list_all (\<lambda>c. c < length (nodes pool) \<and>
                 list_all (\<lambda>q. q < length (nodes pool) \<and> c \<in> set (my_children (nodes pool ! q)))
                   (node_parents (nodes pool ! c)))
       (registered_children pool) \<and>
     list_all (\<lambda>c1. list_all (\<lambda>c2. set (node_parents (nodes pool ! c1)) =
                                     set (node_parents (nodes pool ! c2)) \<longrightarrow> c1 = c2)
                       (registered_children pool))
       (registered_children pool)"

definition empty_pool :: node_pool where
  "empty_pool = \<lparr>nodes = [], mesh_node_map = Map.empty, my_midside_node_map = Map.empty\<rparr>"

text \<open>A pool with the three mesh nodes of a triangle.\<close>

definition pool_ex :: node_pool where
  "pool_ex =
     fst (create_mesh_node (fst (create_mesh_node (fst (create_mesh_node empty_pool
       1 101)) 1 102)) 1 103)"

text \<open>The pool after a new node with the given parents was added and registered.\<close>

definition with_child :: "node_pool \<Rightarrow> SubElementNode \<Rightarrow> node_ptr list \<Rightarrow> node_pool" where
  "with_child pool new ps =
     foldl (\<lambda>pl p. add_child pl p (length (nodes pool))) (pool\<lparr>nodes := nodes pool @ [new]\<rparr>) ps"

text \<open>
  A pool extends another when it has the nodes of the other with the same parents and at
  least the same registered children, and its two maps hold what the maps of the other hold.
\<close>

definition extends :: "node_pool \<Rightarrow> node_pool \<Rightarrow> bool" where
  "extends pool pool' \<longleftrightarrow>
     length (nodes pool) \<le> length (nodes pool') \<and>
     (\<forall>i<length (nodes pool).
        node_parents (nodes pool' ! i) = node_parents (nodes pool ! i) \<and>
        set (my_children (nodes pool ! i)) \<subseteq> set (my_children (nodes pool' ! i))) \<and>
     (\<forall>e n. mesh_node_map pool e = Some n \<longrightarrow> mesh_node_map pool' e = Some n) \<and>
     (\<forall>k n. my_midside_node_map pool k = Some n \<longrightarrow> my_midside_node_map pool' k = Some n)"

text \<open>
  What a pool has to hold for a request to be answered with node \<open>n\<close>: the entry of the
  map for a mesh node or a mid-side node, a registered child with the parent set of the
  request for an edge node or a child node.
\<close>

fun holds_node :: "node_pool \<Rightarrow> node_request \<Rightarrow> node_ptr \<Rightarrow> bool" where
  "holds_node pool (MeshNodeRequest owner e) n \<longleftrightarrow> mesh_node_map pool e = Some n"
| "holds_node pool (EdgeNodeRequest owner p1 p2 position) n \<longleftrightarrow>
     n \<in> set (registered_children pool) \<and> set (node_parents (nodes pool ! n)) = {p1, p2}"
| "holds_node pool (MidSideNodeRequest owner p1 p2 entity) n \<longleftrightarrow>
     my_midside_node_map pool (if p1 < p2 then (p1, p2) else (p2, p1)) = Some n"
| "holds_node pool (SteinerNodeRequest owner ps weights) n \<longleftrightarrow> False"
| "holds_node pool (ChildNodeRequest owner ps weights) n \<longleftrightarrow>
     n \<in> set (registered_children pool) \<and> set (node_parents (nodes pool ! n)) = set ps"

text \<open>
  A request for an edge node, requests that follow it, and the request for the same edge
  with the parents in the other order.
\<close>

definition request_ex :: node_request where
  "request_ex = EdgeNodeRequest 1 0 1 (1 / 4)"

definition requests_ex :: "node_request list" where
  "requests_ex =
     [SteinerNodeRequest 1 [0, 1, 2] [1 / 3, 1 / 3, 1 / 3],
      MidSideNodeRequest 1 0 1 None,
      EdgeNodeRequest 1 1 2 (1 / 2)]"

definition request_again_ex :: node_request where
  "request_again_ex = EdgeNodeRequest 2 1 0 (1 / 2)"


section \<open>Building hanging edge nodes across processors\<close>

text \<open>
  A node ancestry travels as the ordered keys of its parent nodes and the cut positions
  that go with them. Of a node of the snapshot, what \<^verbatim>\<open>build_parallel_hanging_edge_nodes\<close>
  looks at is whether it is an edge node, whether its ancestry is shared, and the ancestry.
\<close>

type_synonym rank = nat

record SubElementChildNodeAncestry =
  parent_node_keys :: "EntityKey list"
  cut_positions :: "real list"

record candidate_node =
  is_edge_node :: bool
  is_shared :: bool
  ancestry :: SubElementChildNodeAncestry

text \<open>
  \<^verbatim>\<open>stk::CommSparse\<close> as one processor sees it while sending: before the buffers are allocated
  packing only counts, afterwards it stores. \<open>packed_size\<close> is the size an ancestry packs to.
\<close>

record CommSparse =
  allocated :: bool
  send_size :: "rank \<Rightarrow> nat"
  send_buffer :: "rank \<Rightarrow> SubElementChildNodeAncestry list"

definition new_comm :: CommSparse where
  "new_comm = \<lparr>allocated = False, send_size = (\<lambda>p. 0), send_buffer = (\<lambda>p. [])\<rparr>"

definition pack_into_buffer ::
  "(SubElementChildNodeAncestry \<Rightarrow> nat) \<Rightarrow> CommSparse \<Rightarrow> rank \<Rightarrow> SubElementChildNodeAncestry \<Rightarrow> CommSparse" where
  "pack_into_buffer packed_size sparse p a =
     (if allocated sparse
      then sparse\<lparr>send_buffer := (send_buffer sparse)(p := send_buffer sparse p @ [a])\<rparr>
      else sparse\<lparr>send_size := (send_size sparse)(p := send_size sparse p + packed_size a)\<rparr>)"

definition allocate_buffers :: "CommSparse \<Rightarrow> CommSparse" where
  "allocate_buffers sparse = sparse\<lparr>allocated := True\<rparr>"

text \<open>The shared cut edges: the ancestries of the edge nodes that are shared.\<close>

definition shared_edge_nodes :: "candidate_node list \<Rightarrow> SubElementChildNodeAncestry list" where
  "shared_edge_nodes ns = map ancestry (filter (\<lambda>n. is_edge_node n \<and> is_shared n) ns)"

text \<open>
  One phase of packing on processor \<open>me\<close>. \<open>spi\<close> is
  \<^verbatim>\<open>stk_bulk().shared_procs_intersection\<close> as this processor answers it.
\<close>

fun pack_to_procs ::
  "(SubElementChildNodeAncestry \<Rightarrow> nat) \<Rightarrow> rank \<Rightarrow> SubElementChildNodeAncestry \<Rightarrow> rank list
     \<Rightarrow> CommSparse \<Rightarrow> CommSparse" where
  "pack_to_procs packed_size me a [] sparse = sparse"
| "pack_to_procs packed_size me a (other_proc # procs) sparse =
     pack_to_procs packed_size me a procs
       (if other_proc \<noteq> me then pack_into_buffer packed_size sparse other_proc a else sparse)"

fun pack_phase ::
  "(SubElementChildNodeAncestry \<Rightarrow> nat) \<Rightarrow> (EntityKey list \<Rightarrow> rank list) \<Rightarrow> rank
     \<Rightarrow> SubElementChildNodeAncestry list \<Rightarrow> CommSparse \<Rightarrow> CommSparse" where
  "pack_phase packed_size spi me [] sparse = sparse"
| "pack_phase packed_size spi me (a # as) sparse =
     pack_phase packed_size spi me as
       (pack_to_procs packed_size me a (spi (parent_node_keys a)) sparse)"

text \<open>
  The sending half of \<^verbatim>\<open>build_parallel_hanging_edge_nodes\<close>: nothing on fewer than two
  processors, otherwise the sizing phase, the allocation and the data phase.
\<close>

definition hanging_edge_sends ::
  "(SubElementChildNodeAncestry \<Rightarrow> nat) \<Rightarrow> (EntityKey list \<Rightarrow> rank list) \<Rightarrow> nat \<Rightarrow> rank
     \<Rightarrow> candidate_node list \<Rightarrow> CommSparse option" where
  "hanging_edge_sends packed_size spi parallel_size me ns =
     (if parallel_size < 2 then None
      else (let edges = shared_edge_nodes ns;
                sparse0 = pack_phase packed_size spi me edges new_comm;
                sparse1 = allocate_buffers sparse0;
                sparse2 = pack_phase packed_size spi me edges sparse1
            in Some sparse2))"

text \<open>
  \<^verbatim>\<open>communicate()\<close> hands to processor \<open>me\<close>, as its receive buffer from \<open>i\<close>, what
  \<open>i\<close> stored for \<open>me\<close>. The receiving half runs through the other processors in rank
  order and hands every ancestry it unpacks to \<^verbatim>\<open>build_missing_child_nodes\<close>, here \<open>build\<close>.
\<close>

definition recv_buffer ::
  "(rank \<Rightarrow> CommSparse option) \<Rightarrow> rank \<Rightarrow> rank \<Rightarrow> SubElementChildNodeAncestry list" where
  "recv_buffer comms me i = (case comms i of None \<Rightarrow> [] | Some c \<Rightarrow> send_buffer c me)"

definition received ::
  "(rank \<Rightarrow> CommSparse option) \<Rightarrow> nat \<Rightarrow> rank \<Rightarrow> SubElementChildNodeAncestry list" where
  "received comms parallel_size me =
     concat (map (\<lambda>i. if i \<noteq> me then recv_buffer comms me i else []) [0..<parallel_size])"

definition build_parallel_hanging_edge_nodes ::
  "(SubElementChildNodeAncestry \<Rightarrow> nat) \<Rightarrow> (rank \<Rightarrow> EntityKey list \<Rightarrow> rank list) \<Rightarrow> nat
     \<Rightarrow> (rank \<Rightarrow> candidate_node list) \<Rightarrow> ('s \<Rightarrow> SubElementChildNodeAncestry \<Rightarrow> 's)
     \<Rightarrow> rank \<Rightarrow> 's \<Rightarrow> 's" where
  "build_parallel_hanging_edge_nodes packed_size spi parallel_size ns build me mesh =
     (if parallel_size < 2 then mesh
      else foldl build mesh
             (received (\<lambda>i. hanging_edge_sends packed_size (spi i) parallel_size i (ns i))
                parallel_size me))"

text \<open>
  Modelled from the spec: \<^verbatim>\<open>BulkData::shared_procs_intersection\<close> belongs to the mesh
  database, which is not among the sources; the specification (section 6) has the database
  answer sharing queries with the list of processes an entity is shared with. As its name
  says, the function is taken to give the processes common to those lists for all the
  given keys.
\<close>

definition shared_procs_intersection :: "(EntityKey \<Rightarrow> rank list) \<Rightarrow> EntityKey list \<Rightarrow> rank list" where
  "shared_procs_intersection comm_shared_procs keys =
     (case keys of
        [] \<Rightarrow> []
      | k # ks \<Rightarrow>
          filter (\<lambda>p. list_all (\<lambda>k'. p \<in> set (comm_shared_procs k')) ks) (comm_shared_procs k))"

text \<open>
  Three processors; on processor 0 node 10 is shared with processors 1 and 2 and node 11
  with processor 1 only, and the edge from 10 to 11 is cut.
\<close>

definition sharing_ex :: "rank \<Rightarrow> EntityKey \<Rightarrow> rank list" where
  "sharing_ex r k =
     (if r = 0 then (if k = 10 then [1, 2] else if k = 11 then [1] else [])
      else if r = 1 then (if k = 10 then [0, 2] else if k = 11 then [0] else [])
      else (if k = 10 then [0, 1] else []))"

definition cut_edge_ex :: SubElementChildNodeAncestry where
  "cut_edge_ex = \<lparr>parent_node_keys = [10, 11], cut_positions = [1 / 2]\<rparr>"

definition nodes_ex :: "rank \<Rightarrow> candidate_node list" where
  "nodes_ex r =
     (if r = 0 then [\<lparr>is_edge_node = True, is_shared = True, ancestry = cut_edge_ex\<rparr>] else [])"

text \<open>
  What processor \<open>me\<close> sends to processor \<open>q\<close>: each shared cut edge, once for every
  time \<open>q\<close> occurs among its sharing processors.
\<close>

definition sent_to :: "(EntityKey list \<Rightarrow> rank list) \<Rightarrow> rank \<Rightarrow> rank
    \<Rightarrow> SubElementChildNodeAncestry list \<Rightarrow> SubElementChildNodeAncestry list" where
  "sent_to spi me q edges =
     (if q \<noteq> me
      then concat (map (\<lambda>a. replicate (count_list (spi (parent_node_keys a)) q) a) edges)
      else [])"

definition comms_ex :: "rank \<Rightarrow> CommSparse option" where
  "comms_ex i =
     hanging_edge_sends (\<lambda>a. 1) (shared_procs_intersection (sharing_ex i)) 3 i (nodes_ex i)"


section \<open>Finding the prolongation source of a new node\<close>


type_synonym Vector3d = "real \<times> real \<times> real"

record ProlongationNodeData =
  pnd_entityId :: nat
  pnd_fields :: "nat list"
  pnd_coordinates :: Vector3d


text \<open>
  The part of the snapshot the search reads. A search tree answers
  \<^verbatim>\<open>find_closest_entities\<close> for a point with a list of facets; an entry of the tree map
  may hold no tree. A \<^verbatim>\<open>double\<close> is the real number it denotes, so that \<^verbatim>\<open><\<close> on doubles
  is \<^verbatim>\<open><\<close> on reals; what the arithmetic of the machine computes is not written out but
  given with the snapshot. The facet classes and \<^verbatim>\<open>Vector3d\<close> are not among the sources:
  the squared distance of a \<^verbatim>\<open>FacetDistanceQuery\<close>, \<^verbatim>\<open>get_prolongation_point_data\<close>, the
  difference of two vectors and \<^verbatim>\<open>length_squared\<close> are functions of the record, each
  giving the double the machine computes, and \<open>numeric_limits_max\<close> is
  \<^verbatim>\<open>std::numeric_limits<double>::max()\<close>.
\<close>

record ('f, 'p) prolongation_data =
  need_facets_for_prolongation :: bool
  my_phase_prolong_tree_map :: "(nat list \<times> (Vector3d \<Rightarrow> 'f list) option) list"
  my_prolong_node_map :: "(nat \<times> ProlongationNodeData) list"
  distance_squared :: "'f \<Rightarrow> Vector3d \<Rightarrow> real"
  get_prolongation_point_data :: "'f \<Rightarrow> real \<Rightarrow> 'p option"
  vec_minus :: "Vector3d \<Rightarrow> Vector3d \<Rightarrow> Vector3d"
  length_squared :: "Vector3d \<Rightarrow> real"
  numeric_limits_max :: real
  my_missing_remote_prolong_facets :: bool












text \<open>
  The nearest of a list of facets is the first one no other is closer than; the nearest
  stashed node likewise, provided it is closer than the bound the search starts from.
  Distances are the doubles the machine computes, so two candidates can be equally near;
  the first one met is then the nearest.
\<close>

definition nearest_facet :: "('f \<Rightarrow> real) \<Rightarrow> 'f list \<Rightarrow> 'f option" where
  "nearest_facet d fs = find (\<lambda>f. list_all (\<lambda>g. d f \<le> d g) fs) fs"

definition nearest_node ::
  "(ProlongationNodeData \<Rightarrow> real) \<Rightarrow> real \<Rightarrow> ProlongationNodeData list \<Rightarrow> ProlongationNodeData option" where
  "nearest_node nd bound ns = find (\<lambda>n. nd n < bound \<and> list_all (\<lambda>m. nd n \<le> nd m) ns) ns"









section \<open>Properties of the entity communication database\<close>

lemma next_key_neq: "distinct (map fst xs) \<Longrightarrow> next_key xs k \<noteq> Some k"
  by (induction xs k rule: next_key.induct) (auto split: list.splits)

lemma map_of_filter_key: "map_of (filter (\<lambda>(k', r). k' \<noteq> k) xs) k = None"
  by (induction xs) auto

lemma map_of_update_key:
  "map_of xs k = Some r0 \<Longrightarrow>
   map_of (map (\<lambda>(k', r'). if k' = k then (k', r) else (k', r')) xs) k = Some r"
  by (induction xs) (auto split: if_splits)

lemma fst_update_key:
  "map fst (map (\<lambda>(k', r'). if k' = k then (k', r) else (k', r')) xs) = map fst xs"
  by (induction xs) auto

lemma last_record_at:
  "m_last_lookup db = Some key \<Longrightarrow> map_of (m_comm_map db) key = Some r \<Longrightarrow> last_record db = r"
  by (simp add: last_record_def)

lemma set_last_record_at:
  "m_last_lookup db = Some key \<Longrightarrow> map_of (m_comm_map db) key = Some r0 \<Longrightarrow>
   m_last_lookup (set_last_record db r) = Some key \<and>
   map_of (m_comm_map (set_last_record db r)) key = Some r \<and>
   map fst (m_comm_map (set_last_record db r)) = map fst (m_comm_map db) \<and>
   has_listener (set_last_record db r) = has_listener db \<and>
   notified (set_last_record db r) = notified db"
  using map_of_update_key [of "m_comm_map db" key r0 r] fst_update_key [of key r "m_comm_map db"]
  by (simp add: set_last_record_def)

lemma notify_fields:
  "m_last_lookup (notify db evs) = m_last_lookup db \<and>
   m_comm_map (notify db evs) = m_comm_map db \<and>
   has_listener (notify db evs) = has_listener db \<and>
   notified (notify db evs) = (if has_listener db then notified db @ evs else notified db)"
  by (simp add: notify_def)

lemma erase_last_lookup_at:
  "distinct (map fst (m_comm_map db)) \<Longrightarrow> m_last_lookup db = Some key \<Longrightarrow>
   map_of (m_comm_map (erase_last_lookup db)) key = None \<and>
   m_last_lookup (erase_last_lookup db) \<noteq> Some key \<and>
   has_listener (erase_last_lookup db) = has_listener db \<and>
   notified (erase_last_lookup db) = notified db"
  by (simp add: erase_last_lookup_def map_of_filter_key next_key_neq)

lemma erase_range_unfold:
  "erase_range db key i e b =
     (let cm' = take i (comm_map (last_record db)) @ drop e (comm_map (last_record db));
          db1 = notify db (map (\<lambda>x. RemovedGhost key (ghost_id x) (proc x))
                  (take (e - i) (drop i (comm_map (last_record db)))));
          db2 = set_last_record db1 ((last_record db1)\<lparr>comm_map := cm'\<rparr>)
      in if cm' = []
         then notify (erase_last_lookup (set_last_record db2
                ((last_record db2)\<lparr>isShared := False, isGhost := False\<rparr>))) [RemovedKey key]
         else internal_update_shared_ghosted db2 b)"
  unfolding erase_range_def Let_def by (rule refl)

lemma erase_range_emptied:
  assumes d: "distinct (map fst (m_comm_map db))"
    and l: "m_last_lookup db = Some key"
    and m: "map_of (m_comm_map db) key = Some r"
    and e: "take i (comm_map r) @ drop e (comm_map r) = []"
  shows "map_of (m_comm_map (erase_range db key i e b)) key = None \<and>
         m_last_lookup (erase_range db key i e b) \<noteq> Some key \<and>
         notified (erase_range db key i e b) =
           (if has_listener db
            then notified db @ map (\<lambda>x. RemovedGhost key (ghost_id x) (proc x)) (take (e - i) (drop i (comm_map r)))
                 @ [RemovedKey key]
            else notified db)"
proof -
  define evs where "evs = map (\<lambda>x. RemovedGhost key (ghost_id x) (proc x)) (take (e - i) (drop i (comm_map r)))"
  define cm' where "cm' = take i (comm_map r) @ drop e (comm_map r)"
  define db1 where "db1 = notify db evs"
  define db2 where "db2 = set_last_record db1 ((last_record db1)\<lparr>comm_map := cm'\<rparr>)"
  define db3 where "db3 = set_last_record db2 ((last_record db2)\<lparr>isShared := False, isGhost := False\<rparr>)"
  define db4 where "db4 = erase_last_lookup db3"
  have lr: "last_record db = r" using l m by (rule last_record_at)
  have emp: "cm' = []" unfolding cm'_def by (rule e)
  have "erase_range db key i e b =
      (if cm' = [] then notify db4 [RemovedKey key] else internal_update_shared_ghosted db2 b)"
    unfolding erase_range_unfold Let_def lr db4_def db3_def db2_def db1_def evs_def cm'_def
    by (rule refl)
  then have eq: "erase_range db key i e b = notify db4 [RemovedKey key]"
    using emp by simp
  have p1: "m_last_lookup db1 = Some key" "map_of (m_comm_map db1) key = Some r"
    "distinct (map fst (m_comm_map db1))" "has_listener db1 = has_listener db"
    "notified db1 = (if has_listener db then notified db @ evs else notified db)"
    using l m d by (simp_all add: db1_def notify_fields)
  have p2: "m_last_lookup db2 = Some key" "\<exists>r2. map_of (m_comm_map db2) key = Some r2"
    "distinct (map fst (m_comm_map db2))" "has_listener db2 = has_listener db"
    "notified db2 = notified db1"
    using set_last_record_at [OF p1(1) p1(2), of "(last_record db1)\<lparr>comm_map := cm'\<rparr>"] p1
    by (simp_all add: db2_def)
  then obtain r2 where r2: "map_of (m_comm_map db2) key = Some r2" by blast
  have p3: "m_last_lookup db3 = Some key"
    "distinct (map fst (m_comm_map db3))" "has_listener db3 = has_listener db"
    "notified db3 = notified db1"
    using set_last_record_at [OF p2(1) r2, of "(last_record db2)\<lparr>isShared := False, isGhost := False\<rparr>"] p2
    by (simp_all add: db3_def)
  have p4: "map_of (m_comm_map db4) key = None" "m_last_lookup db4 \<noteq> Some key"
    "has_listener db4 = has_listener db" "notified db4 = notified db1"
    using erase_last_lookup_at [OF p3(2) p3(1)] p3 by (simp_all add: db4_def)
  show ?thesis
    unfolding eq using p4 p1(5) by (simp add: notify_fields evs_def)
qed

lemma erase_range_kept:
  assumes l: "m_last_lookup db = Some key"
    and m: "map_of (m_comm_map db) key = Some r"
    and e: "take i (comm_map r) @ drop e (comm_map r) \<noteq> []"
  shows "\<exists>r'. map_of (m_comm_map (erase_range db key i e b)) key = Some r' \<and>
           comm_map r' = take i (comm_map r) @ drop e (comm_map r)"
proof -
  define evs where "evs = map (\<lambda>x. RemovedGhost key (ghost_id x) (proc x)) (take (e - i) (drop i (comm_map r)))"
  define cm' where "cm' = take i (comm_map r) @ drop e (comm_map r)"
  define db1 where "db1 = notify db evs"
  define db2 where "db2 = set_last_record db1 ((last_record db1)\<lparr>comm_map := cm'\<rparr>)"
  define db4 where "db4 = erase_last_lookup (set_last_record db2
              ((last_record db2)\<lparr>isShared := False, isGhost := False\<rparr>))"
  have lr: "last_record db = r" using l m by (rule last_record_at)
  have ne: "cm' \<noteq> []" unfolding cm'_def by (rule e)
  have "erase_range db key i e b =
      (if cm' = [] then notify db4 [RemovedKey key] else internal_update_shared_ghosted db2 b)"
    unfolding erase_range_unfold Let_def lr db4_def db2_def db1_def evs_def cm'_def
    by (rule refl)
  then have eq: "erase_range db key i e b = internal_update_shared_ghosted db2 b"
    using ne by simp
  have p1: "m_last_lookup db1 = Some key" "map_of (m_comm_map db1) key = Some r"
    using l m by (simp_all add: db1_def notify_fields)
  have p2: "m_last_lookup db2 = Some key"
    "map_of (m_comm_map db2) key = Some ((last_record db1)\<lparr>comm_map := cm'\<rparr>)"
    using set_last_record_at [OF p1(1) p1(2), of "(last_record db1)\<lparr>comm_map := cm'\<rparr>"]
    by (simp_all add: db2_def)
  have lr2: "last_record db2 = (last_record db1)\<lparr>comm_map := cm'\<rparr>"
    using p2 by (rule last_record_at)
  show ?thesis
    unfolding eq internal_update_shared_ghosted_def Let_def
    using set_last_record_at [OF p2(1) p2(2)] by (simp add: lr2 cm'_def)
qed

lemma cached_find_hit:
  "map_of (m_comm_map db) key = Some r \<Longrightarrow>
   cached_find db key = (True, db\<lparr>m_last_lookup := Some key\<rparr>)"
  by (cases db) (auto simp: cached_find_def)

lemma cached_find_miss:
  "map_of (m_comm_map db) key = None \<Longrightarrow> m_last_lookup db \<noteq> Some key \<Longrightarrow>
   cached_find db key = (False, db)"
  by (simp add: cached_find_def)


lemma erase_info_spec:
  assumes w: "wf_db db"
    and m: "map_of (m_comm_map db) key = Some r"
    and ok: "erase_info db key val = (True, db')"
  shows "(take (lower_bound (comm_map r) val) (comm_map r)
            @ drop (Suc (lower_bound (comm_map r) val)) (comm_map r) = [] \<longrightarrow>
          map_of (m_comm_map db') key = None \<and> fst (comm db' key) = [] \<and>
          notified db' = (if has_listener db
             then notified db @ [RemovedGhost key (ghost_id val) (proc val), RemovedKey key]
             else notified db))
       \<and> (take (lower_bound (comm_map r) val) (comm_map r)
            @ drop (Suc (lower_bound (comm_map r) val)) (comm_map r) \<noteq> [] \<longrightarrow>
          (\<exists>r'. map_of (m_comm_map db') key = Some r' \<and>
             comm_map r' = take (lower_bound (comm_map r) val) (comm_map r)
               @ drop (Suc (lower_bound (comm_map r) val)) (comm_map r)))"
proof -
  define db0 where "db0 = db\<lparr>m_last_lookup := Some key\<rparr>"
  define i where "i = lower_bound (comm_map r) val"
  have cf: "cached_find db key = (True, db0)"
    using m by (simp add: cached_find_hit db0_def)
  have f0: "m_last_lookup db0 = Some key" "map_of (m_comm_map db0) key = Some r"
    "distinct (map fst (m_comm_map db0))" "has_listener db0 = has_listener db"
    "notified db0 = notified db"
    using m w by (simp_all add: db0_def wf_db_def)
  have lr: "last_record db0 = r" using f0(1,2) by (rule last_record_at)
  have res: "i \<noteq> length (comm_map r) \<and> val = comm_map r ! i" and
    db': "db' = erase_range db0 key i (Suc i) (ghost_id val = 0)"
    using ok by (auto simp: erase_info_def cf lr Let_def i_def split: if_splits)
  have "i \<le> length (comm_map r)"
    by (simp add: i_def lower_bound_def length_takeWhile_le)
  with res have lt: "i < length (comm_map r)" by simp
  have evs: "take (Suc 0) (drop i (comm_map r)) = [val]"
    using res Cons_nth_drop_Suc [OF lt, symmetric] by simp
  show ?thesis
  proof (intro conjI impI)
    assume e: "take (lower_bound (comm_map r) val) (comm_map r)
            @ drop (Suc (lower_bound (comm_map r) val)) (comm_map r) = []"
    have p: "map_of (m_comm_map db') key = None \<and> m_last_lookup db' \<noteq> Some key \<and>
       notified db' = (if has_listener db0
            then notified db0 @ map (\<lambda>x. RemovedGhost key (ghost_id x) (proc x)) (take (Suc i - i) (drop i (comm_map r)))
                 @ [RemovedKey key]
            else notified db0)"
    proof -
      have e': "take i (comm_map r) @ drop (Suc i) (comm_map r) = []"
        unfolding i_def by (rule e)
      show ?thesis unfolding db' by (rule erase_range_emptied [OF f0(3) f0(1) f0(2) e'])
    qed
    show "map_of (m_comm_map db') key = None" using p by simp
    show "fst (comm db' key) = []"
      using p by (simp add: comm_def cached_find_miss)
    show "notified db' = (if has_listener db
             then notified db @ [RemovedGhost key (ghost_id val) (proc val), RemovedKey key]
             else notified db)"
      using p by (simp add: evs f0)
  next
    assume e: "take (lower_bound (comm_map r) val) (comm_map r)
            @ drop (Suc (lower_bound (comm_map r) val)) (comm_map r) \<noteq> []"
    show "\<exists>r'. map_of (m_comm_map db') key = Some r' \<and>
             comm_map r' = take (lower_bound (comm_map r) val) (comm_map r)
               @ drop (Suc (lower_bound (comm_map r) val)) (comm_map r)"
    proof -
      have e': "take i (comm_map r) @ drop (Suc i) (comm_map r) \<noteq> []"
        unfolding i_def by (rule e)
      show ?thesis
        unfolding db' i_def [symmetric] by (rule erase_range_kept [OF f0(1) f0(2) e'])
    qed
  qed
qed


lemma erase_ghost_spec:
  assumes w: "wf_db db"
    and m: "map_of (m_comm_map db) key = Some r"
    and ok: "erase_ghost db key ordinal = (True, db')"
    and i: "i = lower_bound (comm_map r) \<lparr>ghost_id = ordinal, proc = 0\<rparr>"
    and e: "e = i + lower_bound (drop i (comm_map r)) \<lparr>ghost_id = ordinal + 1, proc = 0\<rparr>"
  shows "(take i (comm_map r) @ drop e (comm_map r) = [] \<longrightarrow>
          map_of (m_comm_map db') key = None \<and> fst (comm db' key) = [] \<and>
          notified db' = (if has_listener db
             then notified db @ map (\<lambda>x. RemovedGhost key (ghost_id x) (proc x))
                    (take (e - i) (drop i (comm_map r))) @ [RemovedKey key]
             else notified db))
       \<and> (take i (comm_map r) @ drop e (comm_map r) \<noteq> [] \<longrightarrow>
          (\<exists>r'. map_of (m_comm_map db') key = Some r' \<and>
             comm_map r' = take i (comm_map r) @ drop e (comm_map r)))"
proof -
  define db0 where "db0 = db\<lparr>m_last_lookup := Some key\<rparr>"
  have cf: "cached_find db key = (True, db0)"
    using m by (simp add: cached_find_hit db0_def)
  have f0: "m_last_lookup db0 = Some key" "map_of (m_comm_map db0) key = Some r"
    "distinct (map fst (m_comm_map db0))" "has_listener db0 = has_listener db"
    "notified db0 = notified db"
    using m w by (simp_all add: db0_def wf_db_def)
  have lr: "last_record db0 = r" using f0(1,2) by (rule last_record_at)
  have db': "db' = erase_range db0 key i e (ordinal = 0)"
    using ok by (auto simp: erase_ghost_def cf lr Let_def i e split: if_splits)
  show ?thesis
  proof (intro conjI impI)
    assume emp: "take i (comm_map r) @ drop e (comm_map r) = []"
    have p: "map_of (m_comm_map db') key = None \<and> m_last_lookup db' \<noteq> Some key \<and>
       notified db' = (if has_listener db0
            then notified db0 @ map (\<lambda>x. RemovedGhost key (ghost_id x) (proc x)) (take (e - i) (drop i (comm_map r)))
                 @ [RemovedKey key]
            else notified db0)"
      unfolding db' by (rule erase_range_emptied [OF f0(3) f0(1) f0(2) emp])
    show "map_of (m_comm_map db') key = None" using p by simp
    show "fst (comm db' key) = []"
      using p by (simp add: comm_def cached_find_miss)
    show "notified db' = (if has_listener db
             then notified db @ map (\<lambda>x. RemovedGhost key (ghost_id x) (proc x))
                    (take (e - i) (drop i (comm_map r))) @ [RemovedKey key]
             else notified db)"
      using p by (simp add: f0)
  next
    assume ne: "take i (comm_map r) @ drop e (comm_map r) \<noteq> []"
    show "\<exists>r'. map_of (m_comm_map db') key = Some r' \<and>
             comm_map r' = take i (comm_map r) @ drop e (comm_map r)"
      unfolding db' by (rule erase_range_kept [OF f0(1) f0(2) ne])
  qed
qed


text \<open>
  Claim C9. Let \<open>key\<close> have a record in a well-formed database. When
  \<^verbatim>\<open>erase(key, val)\<close> or \<^verbatim>\<open>erase(key, ghost)\<close> succeeds and the pairs left in the
  record's vector are none, the record is gone from the map, a following \<^verbatim>\<open>comm(key)\<close>
  is the empty view, and a registered listener has been told of every removed pair and
  then of the removed key (without a listener nothing is recorded). When pairs are
  left, the record stays, holding exactly those pairs.
\<close>

theorem erase_deletes_emptied_record:
  assumes "wf_db db" and "map_of (m_comm_map db) key = Some r"
  shows "(erase_info db key val = (True, db1) \<longrightarrow>
          (let i = lower_bound (comm_map r) val;
               rest = take i (comm_map r) @ drop (Suc i) (comm_map r)
           in (rest = [] \<longrightarrow>
                 map_of (m_comm_map db1) key = None \<and> fst (comm db1 key) = [] \<and>
                 notified db1 = (if has_listener db
                    then notified db @ [RemovedGhost key (ghost_id val) (proc val), RemovedKey key]
                    else notified db))
            \<and> (rest \<noteq> [] \<longrightarrow>
                 (\<exists>r'. map_of (m_comm_map db1) key = Some r' \<and> comm_map r' = rest))))
       \<and> (erase_ghost db key ordinal = (True, db2) \<longrightarrow>
          (let i = lower_bound (comm_map r) \<lparr>ghost_id = ordinal, proc = 0\<rparr>;
               e = i + lower_bound (drop i (comm_map r)) \<lparr>ghost_id = ordinal + 1, proc = 0\<rparr>;
               rest = take i (comm_map r) @ drop e (comm_map r)
           in (rest = [] \<longrightarrow>
                 map_of (m_comm_map db2) key = None \<and> fst (comm db2 key) = [] \<and>
                 notified db2 = (if has_listener db
                    then notified db @ map (\<lambda>x. RemovedGhost key (ghost_id x) (proc x))
                           (take (e - i) (drop i (comm_map r))) @ [RemovedKey key]
                    else notified db))
            \<and> (rest \<noteq> [] \<longrightarrow>
                 (\<exists>r'. map_of (m_comm_map db2) key = Some r' \<and> comm_map r' = rest))))"
proof (intro conjI impI)
  assume "erase_info db key val = (True, db1)"
  from erase_info_spec [OF assms this] show "let i = lower_bound (comm_map r) val;
               rest = take i (comm_map r) @ drop (Suc i) (comm_map r)
           in (rest = [] \<longrightarrow>
                 map_of (m_comm_map db1) key = None \<and> fst (comm db1 key) = [] \<and>
                 notified db1 = (if has_listener db
                    then notified db @ [RemovedGhost key (ghost_id val) (proc val), RemovedKey key]
                    else notified db))
            \<and> (rest \<noteq> [] \<longrightarrow>
                 (\<exists>r'. map_of (m_comm_map db1) key = Some r' \<and> comm_map r' = rest))"
    unfolding Let_def .
next
  assume "erase_ghost db key ordinal = (True, db2)"
  from erase_ghost_spec [OF assms this refl refl] show "let i = lower_bound (comm_map r) \<lparr>ghost_id = ordinal, proc = 0\<rparr>;
               e = i + lower_bound (drop i (comm_map r)) \<lparr>ghost_id = ordinal + 1, proc = 0\<rparr>;
               rest = take i (comm_map r) @ drop e (comm_map r)
           in (rest = [] \<longrightarrow>
                 map_of (m_comm_map db2) key = None \<and> fst (comm db2 key) = [] \<and>
                 notified db2 = (if has_listener db
                    then notified db @ map (\<lambda>x. RemovedGhost key (ghost_id x) (proc x))
                           (take (e - i) (drop i (comm_map r))) @ [RemovedKey key]
                    else notified db))
            \<and> (rest \<noteq> [] \<longrightarrow>
                 (\<exists>r'. map_of (m_comm_map db2) key = Some r' \<and> comm_map r' = rest))"
    unfolding Let_def .
qed

theorem erase_deletes_emptied_record_witness:
  "wf_db db_ex \<and>
   map_of (m_comm_map db_ex) 3 =
     Some \<lparr>isShared = True, isGhost = False, comm_map = [\<lparr>ghost_id = 0, proc = 1\<rparr>]\<rparr> \<and>
   erase_info db_ex 3 \<lparr>ghost_id = 0, proc = 1\<rparr> =
     (True, db_ex\<lparr>m_comm_map := tl (m_comm_map db_ex), m_last_lookup := Some 7,
                    notified := [RemovedGhost 3 0 1, RemovedKey 3]\<rparr>) \<and>
   erase_ghost db_ex 3 0 =
     (True, db_ex\<lparr>m_comm_map := tl (m_comm_map db_ex), m_last_lookup := Some 7,
                    notified := [RemovedGhost 3 0 1, RemovedKey 3]\<rparr>) \<and>
   fst (comm (db_ex\<lparr>m_comm_map := tl (m_comm_map db_ex), m_last_lookup := Some 7,
                    notified := [RemovedGhost 3 0 1, RemovedKey 3]\<rparr>) 3) = []"
proof -
  let ?R = "\<lparr>isShared = True, isGhost = False, comm_map = [\<lparr>ghost_id = 0, proc = 1\<rparr>]\<rparr>"
  let ?V = "\<lparr>ghost_id = 0, proc = 1\<rparr>"
  let ?D = "db_ex\<lparr>m_comm_map := tl (m_comm_map db_ex), m_last_lookup := Some 7,
                    notified := [RemovedGhost 3 0 1, RemovedKey 3]\<rparr>"
  have h1: "wf_db db_ex" by (simp add: wf_db_def db_ex_def info_less_def)
  have h2: "map_of (m_comm_map db_ex) 3 = Some ?R" by (simp add: db_ex_def)
  have h3: "erase_info db_ex 3 ?V = (True, ?D)"
    by (simp add: db_ex_def erase_info_def cached_find_def last_record_def lower_bound_def
        info_less_def erase_range_def notify_def set_last_record_def erase_last_lookup_def Let_def)
  have h4: "erase_ghost db_ex 3 0 = (True, ?D)"
    by (simp add: db_ex_def erase_ghost_def cached_find_def last_record_def lower_bound_def
        info_less_def erase_range_def notify_def set_last_record_def erase_last_lookup_def Let_def)
  have rest: "take (lower_bound (comm_map ?R) ?V) (comm_map ?R)
      @ drop (Suc (lower_bound (comm_map ?R) ?V)) (comm_map ?R) = []"
    by (simp add: lower_bound_def info_less_def)
  have "erase_info db_ex 3 ?V = (True, ?D) \<longrightarrow>
          (let i = lower_bound (comm_map ?R) ?V;
               rest = take i (comm_map ?R) @ drop (Suc i) (comm_map ?R)
           in (rest = [] \<longrightarrow>
                 map_of (m_comm_map ?D) 3 = None \<and> fst (comm ?D 3) = [] \<and>
                 notified ?D = (if has_listener db_ex
                    then notified db_ex @ [RemovedGhost 3 (ghost_id ?V) (proc ?V), RemovedKey 3]
                    else notified db_ex))
            \<and> (rest \<noteq> [] \<longrightarrow>
                 (\<exists>r'. map_of (m_comm_map ?D) 3 = Some r' \<and> comm_map r' = rest)))"
    by (rule conjunct1 [OF erase_deletes_emptied_record [OF h1 h2, of ?V ?D 0 ?D]])
  then have "rest = [] \<longrightarrow>
                 map_of (m_comm_map ?D) 3 = None \<and> fst (comm ?D 3) = [] \<and>
                 notified ?D = (if has_listener db_ex
                    then notified db_ex @ [RemovedGhost 3 (ghost_id ?V) (proc ?V), RemovedKey 3]
                    else notified db_ex)"
    if "rest = take (lower_bound (comm_map ?R) ?V) (comm_map ?R)
      @ drop (Suc (lower_bound (comm_map ?R) ?V)) (comm_map ?R)" for rest
    using h3 that unfolding Let_def by blast
  from this [OF refl] rest have "fst (comm ?D 3) = []" by blast
  with h1 h2 h3 h4 show ?thesis by blast
qed

section \<open>Properties of the decomposition status\<close>

lemma modify_mesh_ops:
  "modify_mesh bulk level old others elements = (modified, ops) \<Longrightarrow> modified \<longleftrightarrow> ops \<noteq> []"
  by (auto simp: modify_mesh_def Let_def split: prod.splits if_splits)

lemma modify_mesh_needed:
  "fst (modify_mesh bulk level old others elements) \<longleftrightarrow>
     level > 0 \<or> list_ex (\<lambda>b. b) others \<or>
     \<not> snd (set_entities_for_existing_child_elements bulk old elements) \<or>
     get_unused_old_child_elements bulk
       (fst (set_entities_for_existing_child_elements bulk old elements)) \<noteq> []"
  by (auto simp: modify_mesh_def Let_def is_true_on_any_proc_def split: prod.splits if_splits)

lemma status_bits:
  fixes C M :: "32 word"
  assumes "M AND C = 0" and "M \<noteq> 0"
  shows "(C OR M) AND C = C" and "(C OR M) AND M = M" and "C AND M \<noteq> M" and "C AND C = C"
  using assms by (simp_all add: word_bw_comms word_ao_absorbs)

text \<open>
  Claim C1, as the code has it. Let the two flags be disjoint bits, \<open>M\<close> (mesh
  modified) not zero. The status is \<open>C\<close> or \<open>C OR M\<close>; the coordinates flag is always set;
  the mesh-modified flag is set exactly when \<^verbatim>\<open>modify_mesh\<close> ran its modification cycle;
  and the cycle runs exactly when the interface maximum refinement level is positive, or
  some processor reports an element entity that is not set and correct or an unused old
  child element. So a repeated decomposition with nothing to change reports no
  mesh-modified flag only at a refinement level that is not positive.
\<close>

theorem decompose_mesh_status_bits:
  assumes "M AND C = 0" and "M \<noteq> 0"
    and "decompose_mesh_status C M bulk level old others elements = (status, ops)"
  shows "(status = C \<or> status = C OR M) \<and>
         status AND C = C \<and>
         (status AND M = M \<longleftrightarrow> ops \<noteq> []) \<and>
         (ops \<noteq> [] \<longleftrightarrow>
            level > 0 \<or> list_ex (\<lambda>b. b) others \<or>
            \<not> snd (set_entities_for_existing_child_elements bulk old elements) \<or>
            get_unused_old_child_elements bulk
              (fst (set_entities_for_existing_child_elements bulk old elements)) \<noteq> [])"
proof -
  obtain modified where mm: "modify_mesh bulk level old others elements = (modified, ops)"
    and st: "status = (if modified then C OR M else C)"
    using assms(3) by (auto simp: decompose_mesh_status_def Let_def split: prod.splits)
  have mo: "modified \<longleftrightarrow> ops \<noteq> []" using mm by (rule modify_mesh_ops)
  have need: "modified \<longleftrightarrow> level > 0 \<or> list_ex (\<lambda>b. b) others \<or>
            \<not> snd (set_entities_for_existing_child_elements bulk old elements) \<or>
            get_unused_old_child_elements bulk
              (fst (set_entities_for_existing_child_elements bulk old elements)) \<noteq> []"
    using modify_mesh_needed [of bulk level old others elements] mm by simp
  show ?thesis
    using status_bits [OF assms(1,2)] st mo need by (cases modified) simp_all
qed

lemma unchanged_ex:
  "snd (set_entities_for_existing_child_elements bulk_ex True elements_ex)"
  by (simp add: set_entities_for_existing_child_elements_def bulk_ex_def elements_ex_def Let_def)

lemma unused_ex:
  "get_unused_old_child_elements bulk_ex
     (fst (set_entities_for_existing_child_elements bulk_ex True elements_ex)) = []"
  by (simp add: set_entities_for_existing_child_elements_def get_unused_old_child_elements_def
      find_child_element_def bulk_ex_def elements_ex_def Let_def)

lemma status_ex:
  "decompose_mesh_status 2 1 bulk_ex level True [] elements_ex =
     (if level > 0
      then (3, [ModificationBegin, CreateNodeEntities, CreateElementAndSideEntities,
                DestroyCustomGhostings, DeleteMeshEntities [],
                ModificationEnd, AddPossibleInterfaceSides, BatchCreateSides,
                ModificationBegin, UpdateNodeActivation, UpdateElementSideParts,
                ModificationEnd, InduceTopologyNodesets])
      else (2, []))"
  using unchanged_ex unused_ex
  by (simp add: decompose_mesh_status_def modify_mesh_def case_prod_beta is_true_on_any_proc_def)

theorem decompose_mesh_status_bits_witness:
  "(1 :: 32 word) AND 2 = 0 \<and> (1 :: 32 word) \<noteq> 0 \<and>
   decompose_mesh_status 2 1 bulk_ex 0 True [] elements_ex = (2, []) \<and>
   (2 :: 32 word) AND 2 = 2 \<and> (2 :: 32 word) AND 1 \<noteq> 1"
proof -
  have h1: "(1 :: 32 word) AND 2 = 0" by simp
  have h2: "(1 :: 32 word) \<noteq> 0" by simp
  have h3: "decompose_mesh_status 2 1 bulk_ex 0 True [] elements_ex = (2, [])"
    by (simp add: status_ex)
  from decompose_mesh_status_bits [OF h1 h2 h3]
  have "(2 :: 32 word) AND 2 = 2 \<and> (2 :: 32 word) AND 1 \<noteq> 1" by blast
  with h1 h2 h3 show ?thesis by blast
qed

text \<open>
  The claim as stated fails: on the mesh above, where every sub-element already has its
  element and no old child element is unused, a refinement level of 1 still runs the
  modification cycle and the status carries the mesh-modified flag (flags 2 and 1).
\<close>

theorem rerun_unchanged_counterexample:
  "snd (set_entities_for_existing_child_elements bulk_ex True elements_ex) \<and>
   get_unused_old_child_elements bulk_ex
     (fst (set_entities_for_existing_child_elements bulk_ex True elements_ex)) = [] \<and>
   fst (decompose_mesh_status 2 1 bulk_ex 1 True [] elements_ex) AND 1 = 1 \<and>
   snd (decompose_mesh_status 2 1 bulk_ex 1 True [] elements_ex) \<noteq> []"
  by (simp add: unchanged_ex unused_ex status_ex)

section \<open>Properties of the snapshot chain\<close>

lemma chain_ends_within_two:
  "ends_within_two h p \<longleftrightarrow> (\<forall>n. length (chain n h p) \<le> 2)"
proof
  assume e: "ends_within_two h p"
  show "\<forall>n. length (chain n h p) \<le> 2"
  proof
    fix n
    show "length (chain n h p) \<le> 2"
    proof (cases n)
      case 0 then show ?thesis by simp
    next
      case (Suc n1)
      show ?thesis
      proof (cases n1)
        case 0 with Suc show ?thesis by (cases p) simp_all
      next
        case (Suc n2)
        show ?thesis
        proof (cases n2)
          case 0 with \<open>n = Suc n1\<close> \<open>n1 = Suc n2\<close> show ?thesis
            by (cases p; cases "my_old_mesh (h ! the p)") simp_all
        next
          case (Suc n3)
          with \<open>n = Suc n1\<close> \<open>n1 = Suc n2\<close> e show ?thesis
            by (cases p; cases "my_old_mesh (h ! the p)")
               (simp_all add: ends_within_two_def)
        qed
      qed
    qed
  qed
next
  assume "\<forall>n. length (chain n h p) \<le> 2"
  then have "length (chain (Suc (Suc (Suc 0))) h p) \<le> 2" by blast
  then show "ends_within_two h p"
    by (cases p; cases "my_old_mesh (h ! the p)";
        cases "my_old_mesh (h ! the (my_old_mesh (h ! the p)))")
       (simp_all add: ends_within_two_def)
qed

lemma ctor_None:
  "CDMesh_ctor h None = (h @ [\<lparr>my_old_mesh = None, my_stash_step_count = - 1\<rparr>], length h)"
  by (simp add: CDMesh_ctor_def)

lemma ctor_Some:
  "old < length h \<Longrightarrow> CDMesh_ctor h (Some old) =
     ((h @ [\<lparr>my_old_mesh = Some old, my_stash_step_count = - 1\<rparr>])
        [old := (h ! old)\<lparr>my_old_mesh := None\<rparr>], length h)"
  by (simp add: CDMesh_ctor_def nth_append)

lemma wf_alt:
  "wf_snapshots s \<longleftrightarrow> ptr_ok (length (store s)) (the_new_mesh s) \<and>
     (\<forall>i < length (store s). ptr_ok (length (store s)) (my_old_mesh (store s ! i)))"
  by (auto simp: wf_snapshots_def ptr_ok_def list_all_length)

lemma new_snapshot:
  assumes w: "wf_snapshots s" and st: "snapshot_step NewSnapshot s = Inr s'"
  shows "wf_snapshots s' \<and> ends_within_two (store s') (the_new_mesh s') \<and>
         the_new_mesh s' = Some (length (store s)) \<and>
         my_old_mesh (store s' ! length (store s)) = the_new_mesh s \<and>
         (\<forall>old. the_new_mesh s = Some old \<longrightarrow> my_old_mesh (store s' ! old) = None)"
proof (cases "the_new_mesh s")
  case None
  then have s': "s' = \<lparr>store = store s @ [\<lparr>my_old_mesh = None, my_stash_step_count = - 1\<rparr>],
      the_new_mesh = Some (length (store s))\<rparr>"
    using st by (simp add: ctor_None)
  show ?thesis
    using w None unfolding s' wf_alt
    by (auto simp: ends_within_two_def ptr_ok_def nth_append split: option.splits)
next
  case (Some old)
  then have lt: "old < length (store s)" using w by (simp add: wf_alt ptr_ok_def)
  have s': "s' = \<lparr>store = (store s @ [\<lparr>my_old_mesh = Some old, my_stash_step_count = - 1\<rparr>])
        [old := (store s ! old)\<lparr>my_old_mesh := None\<rparr>],
      the_new_mesh = Some (length (store s))\<rparr>"
    using st Some lt by (simp add: ctor_Some)
  show ?thesis
    using w Some lt unfolding s' wf_alt
    by (auto simp: ends_within_two_def ptr_ok_def nth_append nth_list_update split: option.splits)
qed


lemma build_and_stash:
  assumes w: "wf_snapshots s" and e: "ends_within_two (store s) (the_new_mesh s)"
    and st: "snapshot_step (BuildAndStash level stepCount) s = Inr s'"
  shows "wf_snapshots s' \<and> ends_within_two (store s') (the_new_mesh s')"
proof -
  obtain this where t: "the_new_mesh s = Some this"
    and s': "s' = s\<lparr>store := build_and_stash_old_mesh (store s) this level stepCount\<rparr>"
    using st by (auto split: option.splits)
  have lt: "this < length (store s)" using w t by (simp add: wf_alt ptr_ok_def)
  show ?thesis
  proof (cases "my_old_mesh (store s ! this)")
    case None
    show ?thesis
      using w t lt None unfolding s' wf_alt
      by (auto simp: build_and_stash_old_mesh_def ctor_None stash_field_data_def
          ends_within_two_def ptr_ok_def nth_append nth_list_update less_Suc_eq
          split: option.splits)
  next
    case (Some old0)
    have lo: "old0 < length (store s)"
      using w lt Some unfolding wf_alt by (auto simp: ptr_ok_def)
    show ?thesis
      using w e t lt Some lo unfolding s' wf_alt
      by (auto simp: build_and_stash_old_mesh_def ctor_None stash_field_data_def
          ends_within_two_def ptr_ok_def nth_append nth_list_update less_Suc_eq
          split: option.splits)
  qed
qed

lemma handle_failed:
  assumes w: "wf_snapshots s" and e: "ends_within_two (store s) (the_new_mesh s)"
    and st: "snapshot_step (HandlePossibleFailedTimeStep step_count) s = Inr s'"
  shows "wf_snapshots s' \<and> ends_within_two (store s') (the_new_mesh s')"
proof -
  have "s' = s \<or> s' = \<lparr>store = store s @ [\<lparr>my_old_mesh = None, my_stash_step_count = - 1\<rparr>],
      the_new_mesh = Some (length (store s))\<rparr>"
    using st by (auto simp: ctor_None Let_def split: option.splits if_splits)
  then show ?thesis
  proof
    assume "s' = s" with w e show ?thesis by simp
  next
    assume s': "s' = \<lparr>store = store s @ [\<lparr>my_old_mesh = None, my_stash_step_count = - 1\<rparr>],
      the_new_mesh = Some (length (store s))\<rparr>"
    show ?thesis
      using w unfolding s' wf_alt
      by (auto simp: ends_within_two_def ptr_ok_def nth_append split: option.splits)
  qed
qed

lemma rebuild_restart:
  assumes w: "wf_snapshots s"
    and st: "snapshot_step RebuildFromRestartMesh s = Inr s'"
  shows "wf_snapshots s' \<and> ends_within_two (store s') (the_new_mesh s')"
proof -
  have s': "s' = \<lparr>store = store s @ [\<lparr>my_old_mesh = None, my_stash_step_count = - 1\<rparr>],
      the_new_mesh = Some (length (store s))\<rparr>"
    using st by (auto simp: ctor_None split: if_splits)
  show ?thesis
    using w unfolding s' wf_alt
    by (auto simp: ends_within_two_def ptr_ok_def nth_append split: option.splits)
qed

lemma snapshot_step_inv:
  assumes "wf_snapshots s" and "ends_within_two (store s) (the_new_mesh s)"
    and "snapshot_step op s = Inr s'"
  shows "wf_snapshots s' \<and> ends_within_two (store s') (the_new_mesh s')"
proof (cases op)
  case NewSnapshot
  with assms(3) have "snapshot_step NewSnapshot s = Inr s'" by simp
  from new_snapshot [OF assms(1) this] show ?thesis by blast
next
  case (BuildAndStash level stepCount)
  with assms(3) have "snapshot_step (BuildAndStash level stepCount) s = Inr s'" by simp
  from build_and_stash [OF assms(1,2) this] show ?thesis .
next
  case (HandlePossibleFailedTimeStep n)
  with assms(3) have "snapshot_step (HandlePossibleFailedTimeStep n) s = Inr s'" by simp
  from handle_failed [OF assms(1,2) this] show ?thesis .
next
  case RebuildFromRestartMesh
  with assms(3) have "snapshot_step RebuildFromRestartMesh s = Inr s'" by simp
  from rebuild_restart [OF assms(1) this] show ?thesis .
qed

lemma snapshot_run_inv:
  "wf_snapshots s \<Longrightarrow> ends_within_two (store s) (the_new_mesh s) \<Longrightarrow>
   snapshot_run ops s = Inr s' \<Longrightarrow>
   wf_snapshots s' \<and> ends_within_two (store s') (the_new_mesh s')"
proof (induction ops arbitrary: s)
  case Nil
  then show ?case by simp
next
  case (Cons op ops)
  from Cons.prems(3) obtain s1 where s1: "snapshot_step op s = Inr s1"
    and r: "snapshot_run ops s1 = Inr s'"
    by (auto split: sum.splits)
  from snapshot_step_inv [OF Cons.prems(1,2) s1] Cons.IH [OF _ _ r] show ?case by blast
qed


lemma chain_bound_from_start:
  assumes "snapshot_run ops no_snapshots = Inr s"
  shows "length (chain n (store s) (the_new_mesh s)) \<le> 2"
proof -
  have w: "wf_snapshots no_snapshots" by (simp add: wf_snapshots_def no_snapshots_def)
  have e: "ends_within_two (store no_snapshots) (the_new_mesh no_snapshots)"
    by (simp add: ends_within_two_def no_snapshots_def)
  have "ends_within_two (store s) (the_new_mesh s)"
    using snapshot_run_inv [OF w e assms] by blast
  then have "\<forall>n. length (chain n (store s) (the_new_mesh s)) \<le> 2"
    by (rule chain_ends_within_two [THEN iffD1])
  then show ?thesis by (rule spec)
qed

text \<open>
  Claim C10. In a state whose pointers are valid, assigning \<^verbatim>\<open>the_new_mesh\<close> a snapshot
  constructed with the previous \<^verbatim>\<open>the_new_mesh\<close> as its old mesh leaves the previous
  snapshot without an old mesh of its own, and the chain from the new snapshot has at
  most two members. Once the chain has at most two members it keeps that bound through
  every sequence of the steps that assign snapshot pointers; the snapshots beyond it are
  no longer referred to.
\<close>

theorem snapshot_chain_at_most_two:
  assumes "wf_snapshots s"
  shows "(snapshot_step NewSnapshot s = Inr s1 \<longrightarrow>
            (\<forall>old. the_new_mesh s = Some old \<longrightarrow> my_old_mesh (store s1 ! old) = None) \<and>
            the_new_mesh s1 = Some (length (store s)) \<and>
            my_old_mesh (store s1 ! length (store s)) = the_new_mesh s \<and>
            (\<forall>n. length (chain n (store s1) (the_new_mesh s1)) \<le> 2))
       \<and> ((\<forall>n. length (chain n (store s) (the_new_mesh s)) \<le> 2) \<and>
            snapshot_run ops s = Inr s2 \<longrightarrow>
            (\<forall>n. length (chain n (store s2) (the_new_mesh s2)) \<le> 2))"
proof (intro conjI impI)
  assume st: "snapshot_step NewSnapshot s = Inr s1"
  note n = new_snapshot [OF assms st]
  show "\<forall>old. the_new_mesh s = Some old \<longrightarrow> my_old_mesh (store s1 ! old) = None"
    using n by blast
  show "the_new_mesh s1 = Some (length (store s))" using n by blast
  show "my_old_mesh (store s1 ! length (store s)) = the_new_mesh s" using n by blast
  have "ends_within_two (store s1) (the_new_mesh s1)" using n by blast
  then show "\<forall>n. length (chain n (store s1) (the_new_mesh s1)) \<le> 2"
    by (rule chain_ends_within_two [THEN iffD1])
next
  assume a: "(\<forall>n. length (chain n (store s) (the_new_mesh s)) \<le> 2) \<and>
            snapshot_run ops s = Inr s2"
  then have "\<forall>n. length (chain n (store s) (the_new_mesh s)) \<le> 2" by (rule conjunct1)
  then have e: "ends_within_two (store s) (the_new_mesh s)"
    by (rule chain_ends_within_two [THEN iffD2])
  from a have r: "snapshot_run ops s = Inr s2" by blast
  have "ends_within_two (store s2) (the_new_mesh s2)"
    using snapshot_run_inv [OF assms e r] by blast
  then show "\<forall>n. length (chain n (store s2) (the_new_mesh s2)) \<le> 2"
    by (rule chain_ends_within_two [THEN iffD1])
qed

theorem snapshot_chain_at_most_two_witness:
  "wf_snapshots snapshots_ex \<and>
   snapshot_step NewSnapshot snapshots_ex =
     Inr \<lparr>store = [\<lparr>my_old_mesh = None, my_stash_step_count = - 1\<rparr>,
                    \<lparr>my_old_mesh = None, my_stash_step_count = 4\<rparr>,
                    \<lparr>my_old_mesh = Some 0, my_stash_step_count = - 1\<rparr>],
           the_new_mesh = Some 2\<rparr> \<and>
   length (chain 5 [\<lparr>my_old_mesh = None, my_stash_step_count = - 1\<rparr>,
                    \<lparr>my_old_mesh = None, my_stash_step_count = 4\<rparr>,
                    \<lparr>my_old_mesh = Some 0, my_stash_step_count = - 1\<rparr>] (Some 2)) \<le> 2"
proof -
  let ?S1 = "\<lparr>store = [\<lparr>my_old_mesh = None, my_stash_step_count = - 1\<rparr>,
                    \<lparr>my_old_mesh = None, my_stash_step_count = 4\<rparr>,
                    \<lparr>my_old_mesh = Some 0, my_stash_step_count = - 1\<rparr>],
           the_new_mesh = Some 2\<rparr>"
  have h1: "wf_snapshots snapshots_ex" by (simp add: wf_snapshots_def snapshots_ex_def)
  have h2: "snapshot_step NewSnapshot snapshots_ex = Inr ?S1"
    by (simp add: snapshots_ex_def CDMesh_ctor_def)
  have "\<forall>n. length (chain n (store ?S1) (the_new_mesh ?S1)) \<le> 2"
    using conjunct1 [OF snapshot_chain_at_most_two [OF h1, of ?S1 "[]" snapshots_ex]] h2
    by blast
  then have "length (chain 5 (store ?S1) (the_new_mesh ?S1)) \<le> 2" by (rule spec)
  then show ?thesis using h1 h2 by simp
qed

section \<open>Properties of the padding loop\<close>

lemma round_repeats:
  "prolongation_round rnd g pad (missing, disp) \<noteq> None \<longleftrightarrow> g \<and> (missing \<or> disp > pad)"
  by (simp add: prolongation_round_def)

lemma round_new_padding:
  "prolongation_round rnd g pad obs = Some (a, b) \<Longrightarrow>
   a = rnd (growth_multiplier * snd obs) \<and> b = rnd (a - pad)"
  by (cases obs) (auto simp: prolongation_round_def split: if_splits)

text \<open>
  When a round repeats because the displacement exceeds the padding, the padding grows:
  the rounding is monotone and leaves a double as it is, and the displacement, a square
  root, is a double that is not negative.
\<close>

lemma round_grows:
  assumes m: "mono rnd" and d: "rnd disp = disp" and g: "g" and gt: "disp > pad" and nn: "0 \<le> disp"
  shows "\<exists>pad' pad_by. prolongation_round rnd g pad (missing, disp) = Some (pad', pad_by) \<and> pad < pad'"
proof -
  have "disp \<le> growth_multiplier * disp" using nn by (simp add: growth_multiplier_def)
  with m have "rnd disp \<le> rnd (growth_multiplier * disp)" by (rule monoD)
  with d gt have "pad < rnd (growth_multiplier * disp)" by simp
  with g gt show ?thesis by (simp add: prolongation_round_def)
qed

lemma round_to_places_mono: "mono (round_to_places k)"
proof (rule monoI)
  fix x y :: real assume "x \<le> y"
  then have "x * 2 ^ k \<le> y * 2 ^ k" by simp
  then have "round (x * 2 ^ k) \<le> round (y * 2 ^ k)" by (rule round_mono)
  then show "round_to_places k x \<le> round_to_places k y"
    by (simp add: round_to_places_def divide_right_mono)
qed

lemma round_grows_ex:
  "\<exists>pad' pad_by. prolongation_round (round_to_places 4) True 3 (False, 4) = Some (pad', pad_by) \<and>
     3 < pad'"
  by (rule round_grows [OF round_to_places_mono]) (simp_all add: round_to_places_def)

lemma loop_returns_from:
  "n \<le> k \<Longrightarrow> (\<forall>i. n \<le> i \<and> i < k \<longrightarrow> \<not> stable rnd observe guess pad0 i) \<Longrightarrow>
   stable rnd observe guess pad0 k \<Longrightarrow>
   prolongation_loop rnd observe guess n (padding_in_round rnd observe pad0 n) =
     Some (Suc k, padding_in_round rnd observe pad0 k)"
proof (induction "k - n" arbitrary: n)
  case 0
  then have "n = k" by simp
  with "0.prems"(3) show ?case
    by (subst prolongation_loop.simps) (simp add: stable_def)
next
  case (Suc d)
  then have lt: "n < k" by simp
  with Suc.prems(2) have "\<not> stable rnd observe guess pad0 n" by simp
  then obtain a b where r: "prolongation_round rnd guess (padding_in_round rnd observe pad0 n)
       (observe n (padding_in_round rnd observe pad0 n)) = Some (a, b)"
    by (auto simp: stable_def)
  from round_new_padding [OF r] have a: "a = padding_in_round rnd observe pad0 (Suc n)" by simp
  have "prolongation_loop rnd observe guess (Suc n) (padding_in_round rnd observe pad0 (Suc n)) =
     Some (Suc k, padding_in_round rnd observe pad0 k)"
    using Suc.hyps(2) lt Suc.prems(2,3) by (intro Suc.hyps(1)) auto
  then show ?case
    by (subst prolongation_loop.simps) (simp add: r a del: padding_in_round.simps)
qed

lemma loop_never_returns:
  assumes "\<forall>k. \<not> stable rnd observe guess pad0 k"
  shows "prolongation_loop rnd observe guess n (padding_in_round rnd observe pad0 n) = None"
proof (rule ccontr)
  assume "prolongation_loop rnd observe guess n (padding_in_round rnd observe pad0 n) \<noteq> None"
  then obtain y where y: "prolongation_loop rnd observe guess n (padding_in_round rnd observe pad0 n) = Some y"
    by blast
  have "rnd' = rnd \<longrightarrow> observe' = observe \<longrightarrow> guess' = guess \<longrightarrow>
        pad = padding_in_round rnd observe pad0 n' \<longrightarrow> False"
    if "prolongation_loop rnd' observe' guess' n' pad = Some y'" for rnd' observe' guess' n' pad y'
  proof (rule prolongation_loop.raw_induct
      [where P = "\<lambda>r obs g m p y. r = rnd \<longrightarrow> obs = observe \<longrightarrow> g = guess \<longrightarrow>
                     p = padding_in_round rnd observe pad0 m \<longrightarrow> False",
       OF _ that])
    fix loop r obs g m p y
    assume IH: "\<And>r obs g m p y. loop r obs g m p = Some y \<Longrightarrow>
        r = rnd \<longrightarrow> obs = observe \<longrightarrow> g = guess \<longrightarrow> p = padding_in_round rnd observe pad0 m \<longrightarrow> False"
      and body: "(case prolongation_round r g p (obs m p) of
          None \<Rightarrow> Some (Suc m, p)
        | Some (new_padding, pad_by) \<Rightarrow> loop r obs g (Suc m) new_padding) = Some y"
    show "r = rnd \<longrightarrow> obs = observe \<longrightarrow> g = guess \<longrightarrow> p = padding_in_round rnd observe pad0 m \<longrightarrow> False"
    proof (intro impI)
      assume eq: "r = rnd" "obs = observe" "g = guess" "p = padding_in_round rnd observe pad0 m"
      from assms have "\<not> stable rnd observe guess pad0 m" by blast
      then obtain a b where rr: "prolongation_round rnd guess (padding_in_round rnd observe pad0 m)
         (observe m (padding_in_round rnd observe pad0 m)) = Some (a, b)"
        by (auto simp: stable_def)
      from round_new_padding [OF rr] have a: "a = padding_in_round rnd observe pad0 (Suc m)" by simp
      from body have "loop rnd observe guess (Suc m) (padding_in_round rnd observe pad0 (Suc m)) = Some y"
        unfolding eq rr a by simp
      from IH [OF this] show False by simp
    qed
  qed
  from this [OF y] show False by simp
qed

text \<open>
  While a remote facet stays missing the loop does not return, whatever the rounding.
\<close>

lemma loop_diverges_when_facets_stay_missing:
  "prolongation_loop rnd observe_missing True 0 pad0 = None"
proof -
  have "\<forall>k. \<not> stable rnd observe_missing True pad0 k"
    by (simp add: stable_def prolongation_round_def observe_missing_def)
  from loop_never_returns [OF this, of 0] show ?thesis by simp
qed

text \<open>
  The loop returns at the first round that asks for no repeat, and without guessing and
  checking that is the first round.
\<close>

lemma loop_returns_at_first_stable_round:
  assumes "\<forall>i<k. \<not> stable rnd observe g pad0 i" and "stable rnd observe g pad0 k"
  shows "prolongation_loop rnd observe g 0 pad0 = Some (Suc k, padding_in_round rnd observe pad0 k)"
proof -
  have "prolongation_loop rnd observe g 0 (padding_in_round rnd observe pad0 0) =
     Some (Suc k, padding_in_round rnd observe pad0 k)"
    using assms by (intro loop_returns_from) auto
  then show ?thesis by simp
qed

lemma loop_runs_once_without_guessing:
  "prolongation_loop rnd observe False 0 pad0 = Some (Suc 0, pad0)"
proof -
  have "stable rnd observe False pad0 0"
    by (simp add: stable_def prolongation_round_def split: prod.splits)
  from loop_returns_at_first_stable_round [OF _ this] show ?thesis by simp
qed





section \<open>Properties of node creation\<close>

lemma find_append_fail:
  "\<forall>x\<in>set xs. \<not> P x \<Longrightarrow> find P (xs @ ys) = find P ys"
  by (induction xs) auto

lemma add_child_parents:
  "node_parents (nodes (add_child pl p k) ! i) = node_parents (nodes pl ! i)"
proof (cases "p < length (nodes pl)")
  case True
  then show ?thesis by (cases "i = p") (simp_all add: add_child_def)
next
  case False
  then show ?thesis by (simp add: add_child_def list_update_beyond)
qed

lemma add_child_fields:
  "length (nodes (add_child pl p k)) = length (nodes pl)"
  "mesh_node_map (add_child pl p k) = mesh_node_map pl"
  "my_midside_node_map (add_child pl p k) = my_midside_node_map pl"
  by (simp_all add: add_child_def)

lemma add_child_children:
  "i < length (nodes pl) \<Longrightarrow>
   my_children (nodes (add_child pl p k) ! i) =
     my_children (nodes pl ! i) @ (if p = i then [k] else [])"
  by (simp add: add_child_def nth_list_update)

lemma add_children_fields:
  "length (nodes (foldl (\<lambda>pl p. add_child pl p k) pl ps)) = length (nodes pl) \<and>
   mesh_node_map (foldl (\<lambda>pl p. add_child pl p k) pl ps) = mesh_node_map pl \<and>
   my_midside_node_map (foldl (\<lambda>pl p. add_child pl p k) pl ps) = my_midside_node_map pl \<and>
   node_parents (nodes (foldl (\<lambda>pl p. add_child pl p k) pl ps) ! i) = node_parents (nodes pl ! i)"
  by (induction ps arbitrary: pl) (simp_all add: add_child_fields add_child_parents)

lemma add_children_children:
  "i < length (nodes pl) \<Longrightarrow>
   my_children (nodes (foldl (\<lambda>pl p. add_child pl p k) pl ps) ! i) =
     my_children (nodes pl ! i) @ replicate (count_list ps i) k"
proof (induction ps arbitrary: pl)
  case Nil
  then show ?case by simp
next
  case (Cons p ps)
  have "i < length (nodes (add_child pl p k))" using Cons.prems by (simp add: add_child_fields)
  from Cons.IH [OF this] show ?case
    using Cons.prems by (simp add: add_child_children replicate_app_Cons_same)
qed


lemma with_child_fields:
  "length (nodes (with_child pool new ps)) = Suc (length (nodes pool))"
  "mesh_node_map (with_child pool new ps) = mesh_node_map pool"
  "my_midside_node_map (with_child pool new ps) = my_midside_node_map pool"
  unfolding with_child_def
  using add_children_fields [of "length (nodes pool)" "pool\<lparr>nodes := nodes pool @ [new]\<rparr>" ps 0]
  by simp_all

lemma with_child_parents:
  "node_parents (nodes (with_child pool new ps) ! i) =
     (if i < length (nodes pool) then node_parents (nodes pool ! i)
      else node_parents ((nodes pool @ [new]) ! i))"
  unfolding with_child_def
  using add_children_fields [of "length (nodes pool)" "pool\<lparr>nodes := nodes pool @ [new]\<rparr>" ps i]
  by (simp add: nth_append)

lemma with_child_children:
  "i < length (nodes pool) \<Longrightarrow>
   my_children (nodes (with_child pool new ps) ! i) =
     my_children (nodes pool ! i) @ replicate (count_list ps i) (length (nodes pool))"
  unfolding with_child_def
  using add_children_children [of i "pool\<lparr>nodes := nodes pool @ [new]\<rparr>" "length (nodes pool)" ps]
  by (simp add: nth_append)

lemma with_child_children_new:
  "my_children (nodes (with_child pool new ps) ! length (nodes pool)) =
     my_children new @ replicate (count_list ps (length (nodes pool))) (length (nodes pool))"
  unfolding with_child_def
  using add_children_children [of "length (nodes pool)" "pool\<lparr>nodes := nodes pool @ [new]\<rparr>" "length (nodes pool)" ps]
  by (simp add: nth_append)

text \<open>What each creation function does to the pool.\<close>

lemma create_edge_node_cases:
  "create_edge_node pool owner p1 p2 position =
     (case common_child pool [p1, p2] of
        Some subnode \<Rightarrow> (pool, subnode)
      | None \<Rightarrow>
          (with_child pool \<lparr>node_kind = EdgeNode, node_owner = owner, node_parents = [p1, p2],
                  node_weights = [position], node_entity = None, my_children = []\<rparr> [p1, p2],
           length (nodes pool)))"
  by (simp add: create_edge_node_def add_managed_node_def with_child_def split: option.splits)

lemma create_child_node_cases:
  "create_child_internal_or_face_node pool owner ps weights =
     (case common_child pool ps of
        Some subnode \<Rightarrow> (pool, subnode)
      | None \<Rightarrow>
          (with_child pool \<lparr>node_kind = ChildNode, node_owner = owner, node_parents = ps,
                  node_weights = weights, node_entity = None, my_children = []\<rparr> ps,
           length (nodes pool)))"
  by (simp add: create_child_internal_or_face_node_def add_managed_node_def with_child_def
      split: option.splits)



lemma extends_refl: "extends pool pool"
  by (simp add: extends_def)

lemma extends_trans:
  assumes ab: "extends a b" and bc: "extends b c"
  shows "extends a c"
  unfolding extends_def
proof (intro conjI allI impI)
  show "length (nodes a) \<le> length (nodes c)"
    using ab bc by (simp add: extends_def)
next
  fix i assume i: "i < length (nodes a)"
  then have ib: "i < length (nodes b)" using ab by (simp add: extends_def)
  from ab i have 1: "node_parents (nodes b ! i) = node_parents (nodes a ! i)"
    and 2: "set (my_children (nodes a ! i)) \<subseteq> set (my_children (nodes b ! i))"
    by (simp_all add: extends_def)
  from bc ib have 3: "node_parents (nodes c ! i) = node_parents (nodes b ! i)"
    and 4: "set (my_children (nodes b ! i)) \<subseteq> set (my_children (nodes c ! i))"
    by (simp_all add: extends_def)
  show "node_parents (nodes c ! i) = node_parents (nodes a ! i)" using 1 3 by simp
  show "set (my_children (nodes a ! i)) \<subseteq> set (my_children (nodes c ! i))"
    using 2 4 by (rule subset_trans)
next
  fix e n assume "mesh_node_map a e = Some n"
  with ab have "mesh_node_map b e = Some n" by (simp add: extends_def)
  with bc show "mesh_node_map c e = Some n" by (simp add: extends_def)
next
  fix k n assume "my_midside_node_map a k = Some n"
  with ab have "my_midside_node_map b k = Some n" unfolding extends_def by blast
  with bc show "my_midside_node_map c k = Some n" unfolding extends_def by blast
qed

lemma extends_with_child: "extends pool (with_child pool new ps)"
  by (simp add: extends_def with_child_fields with_child_parents with_child_children)

lemma extends_create_mesh_node: "extends pool (fst (create_mesh_node pool owner e))"
  by (auto simp: extends_def create_mesh_node_def get_mesh_node_def add_managed_mesh_node_def
      add_managed_node_def nth_append Let_def split: option.splits)

lemma extends_create_midside_node: "extends pool (fst (create_midside_node pool owner p1 p2 e))"
  by (auto simp: extends_def create_midside_node_def add_managed_node_def nth_append Let_def
      split: option.splits)

lemma extends_create_steiner_node: "extends pool (fst (create_steiner_node pool owner ps ws))"
  by (auto simp: extends_def create_steiner_node_def add_managed_node_def nth_append)

lemma extends_create_edge_node: "extends pool (fst (create_edge_node pool owner p1 p2 x))"
  by (simp add: create_edge_node_cases extends_refl extends_with_child split: option.splits)

lemma extends_create_child_node:
  "extends pool (fst (create_child_internal_or_face_node pool owner ps ws))"
  by (simp add: create_child_node_cases extends_refl extends_with_child split: option.splits)

lemma extends_create_node: "extends pool (fst (create_node pool r))"
  by (cases r)
     (simp_all add: extends_create_mesh_node extends_create_midside_node
        extends_create_steiner_node extends_create_edge_node extends_create_child_node)

lemma extends_create_nodes: "create_nodes pool rs = Some pool' \<Longrightarrow> extends pool pool'"
proof (induction rs arbitrary: pool)
  case Nil
  then show ?case by (simp add: extends_refl)
next
  case (Cons r rs)
  then have "create_nodes (fst (create_node pool r)) rs = Some pool'"
    by (simp split: if_splits)
  from Cons.IH [OF this] extends_create_node [of pool r] show ?case
    by (rule extends_trans [rotated])
qed


lemma registered_children_iff:
  "c \<in> set (registered_children pool) \<longleftrightarrow>
     (\<exists>p<length (nodes pool). c \<in> set (my_children (nodes pool ! p)))"
proof -
  have "c \<in> set (registered_children pool) \<longleftrightarrow> (\<exists>n\<in>set (nodes pool). c \<in> set (my_children n))"
    by (simp add: registered_children_def)
  also have "\<dots> \<longleftrightarrow> (\<exists>p<length (nodes pool). c \<in> set (my_children (nodes pool ! p)))"
    by (metis in_set_conv_nth)
  finally show ?thesis .
qed

lemma wf_pool_iff:
  "wf_pool pool \<longleftrightarrow>
     (\<forall>c\<in>set (registered_children pool).
        c < length (nodes pool) \<and>
        (\<forall>q\<in>set (node_parents (nodes pool ! c)).
           q < length (nodes pool) \<and> c \<in> set (my_children (nodes pool ! q)))) \<and>
     (\<forall>c1\<in>set (registered_children pool). \<forall>c2\<in>set (registered_children pool).
        set (node_parents (nodes pool ! c1)) = set (node_parents (nodes pool ! c2)) \<longrightarrow> c1 = c2)"
  unfolding wf_pool_def list_all_iff by (rule refl)

lemma wf_pool_append:
  assumes w: "wf_pool pool" and n: "nodes pool' = nodes pool @ [new]" and e: "my_children new = []"
  shows "wf_pool pool'"
proof -
  have rc: "registered_children pool' = registered_children pool"
    by (simp add: registered_children_def n e)
  have old: "nodes pool' ! i = nodes pool ! i" if "i < length (nodes pool)" for i
    using that by (simp add: n nth_append)
  have lt: "c < length (nodes pool)" if "c \<in> set (registered_children pool)" for c
    using w that by (simp add: wf_pool_iff)
  have par: "q < length (nodes pool) \<and> c \<in> set (my_children (nodes pool ! q))"
    if "c \<in> set (registered_children pool)" "q \<in> set (node_parents (nodes pool ! c))" for c q
    using w that by (simp add: wf_pool_iff)
  have uniq: "c1 = c2"
    if "c1 \<in> set (registered_children pool)" "c2 \<in> set (registered_children pool)"
      "set (node_parents (nodes pool ! c1)) = set (node_parents (nodes pool ! c2))" for c1 c2
    using w that unfolding wf_pool_iff by blast
  show ?thesis
    unfolding wf_pool_iff rc
  proof (intro conjI ballI impI)
    fix c assume c: "c \<in> set (registered_children pool)"
    show "c < length (nodes pool')" using lt [OF c] by (simp add: n)
    fix q assume "q \<in> set (node_parents (nodes pool' ! c))"
    then have q: "q \<in> set (node_parents (nodes pool ! c))" using old [OF lt [OF c]] by simp
    from par [OF c q] show "q < length (nodes pool')" by (simp add: n)
    from par [OF c q] show "c \<in> set (my_children (nodes pool' ! q))" by (simp add: old)
  next
    fix c1 c2
    assume c1: "c1 \<in> set (registered_children pool)" and c2: "c2 \<in> set (registered_children pool)"
      and eq: "set (node_parents (nodes pool' ! c1)) = set (node_parents (nodes pool' ! c2))"
    from eq have "set (node_parents (nodes pool ! c1)) = set (node_parents (nodes pool ! c2))"
      using old [OF lt [OF c1]] old [OF lt [OF c2]] by simp
    with c1 c2 show "c1 = c2" by (rule uniq)
  qed
qed

lemma registered_with_child:
  assumes v: "\<forall>p\<in>set ps. p < length (nodes pool)" and e: "my_children new = []"
  shows "set (registered_children (with_child pool new ps)) =
           set (registered_children pool) \<union> (if ps = [] then {} else {length (nodes pool)})"
proof -
  let ?k = "length (nodes pool)"
  let ?pool' = "with_child pool new ps"
  have nk: "count_list ps ?k = 0" using v by (auto simp: count_list_0_iff)
  have new: "my_children (nodes ?pool' ! ?k) = []"
    by (simp add: with_child_children_new e nk)
  have mem: "c \<in> set (registered_children ?pool') \<longleftrightarrow>
      (\<exists>p<?k. c \<in> set (my_children (nodes pool ! p)) \<or> (c = ?k \<and> p \<in> set ps))" for c
  proof -
    have "c \<in> set (registered_children ?pool') \<longleftrightarrow>
        (\<exists>p<Suc ?k. c \<in> set (my_children (nodes ?pool' ! p)))"
      by (simp add: registered_children_iff with_child_fields)
    also have "\<dots> \<longleftrightarrow> (\<exists>p<?k. c \<in> set (my_children (nodes ?pool' ! p)))"
      using new by (auto simp: less_Suc_eq)
    also have "\<dots> \<longleftrightarrow> (\<exists>p<?k. c \<in> set (my_children (nodes pool ! p)) \<or> (c = ?k \<and> p \<in> set ps))"
      by (auto simp: with_child_children count_list_0_iff)
    finally show ?thesis .
  qed
  show ?thesis
  proof (intro set_eqI)
    fix c
    have r: "c \<in> set (registered_children pool) \<longleftrightarrow>
        (\<exists>p<?k. c \<in> set (my_children (nodes pool ! p)))"
      by (rule registered_children_iff)
    have ex: "\<exists>p<?k. p \<in> set ps" if "ps \<noteq> []"
    proof -
      from that obtain p where "p \<in> set ps" by (cases ps) auto
      with v show ?thesis by auto
    qed
    show "c \<in> set (registered_children ?pool') \<longleftrightarrow>
        c \<in> set (registered_children pool) \<union> (if ps = [] then {} else {?k})"
    proof (cases "ps = []")
      case True
      with mem [of c] r show ?thesis by simp
    next
      case False
      from ex [OF False] False mem [of c] r show ?thesis by auto
    qed
  qed
qed


lemma common_child_None:
  assumes none: "common_child pool ps = None" and ne: "ps \<noteq> []"
    and c: "c \<in> set (my_children (nodes pool ! hd ps))"
  shows "set (node_parents (nodes pool ! c)) \<noteq> set ps"
proof -
  obtain p rest where ps: "ps = p # rest" using ne by (cases ps) auto
  from none have "find (\<lambda>c. set (node_parents (nodes pool ! c)) = set ps)
      (my_children (nodes pool ! p)) = None"
    by (simp add: common_child_def ps)
  then show ?thesis using c by (simp add: find_None_iff ps)
qed

lemma common_child_Some:
  assumes "common_child pool ps = Some c"
  shows "ps \<noteq> [] \<and> c \<in> set (my_children (nodes pool ! hd ps)) \<and>
         set (node_parents (nodes pool ! c)) = set ps"
proof (cases ps)
  case Nil
  with assms show ?thesis by (simp add: common_child_def)
next
  case (Cons p rest)
  with assms have "find (\<lambda>c. set (node_parents (nodes pool ! c)) = set ps)
      (my_children (nodes pool ! p)) = Some c"
    by (simp add: common_child_def)
  then have "c \<in> set (my_children (nodes pool ! p)) \<and> set (node_parents (nodes pool ! c)) = set ps"
    by (auto simp: find_Some_iff)
  then show ?thesis by (simp add: Cons)
qed

lemma wf_pool_with_child:
  assumes w: "wf_pool pool" and ne: "ps \<noteq> []"
    and v: "\<forall>p\<in>set ps. p < length (nodes pool)"
    and none: "common_child pool ps = None"
    and np: "node_parents new = ps" and e: "my_children new = []"
  shows "wf_pool (with_child pool new ps)"
proof -
  define k where "k = length (nodes pool)"
  define pool' where "pool' = with_child pool new ps"
  have rc: "set (registered_children pool') = set (registered_children pool) \<union> {k}"
    unfolding pool'_def k_def using registered_with_child [OF v e] ne by simp
  have len: "length (nodes pool') = Suc k"
    by (simp add: pool'_def k_def with_child_fields)
  have par_old: "node_parents (nodes pool' ! i) = node_parents (nodes pool ! i)" if "i < k" for i
    using that by (simp add: pool'_def k_def with_child_parents)
  have par_new: "node_parents (nodes pool' ! k) = ps"
    by (simp add: pool'_def k_def with_child_parents np)
  have ch: "set (my_children (nodes pool' ! q)) =
      set (my_children (nodes pool ! q)) \<union> (if q \<in> set ps then {k} else {})" if "q < k" for q
    using that by (auto simp: pool'_def k_def with_child_children count_list_0_iff)
  have lt: "c < k" if "c \<in> set (registered_children pool)" for c
    using w that by (simp add: wf_pool_iff k_def)
  have par: "q < k \<and> c \<in> set (my_children (nodes pool ! q))"
    if "c \<in> set (registered_children pool)" "q \<in> set (node_parents (nodes pool ! c))" for c q
    using w that by (simp add: wf_pool_iff k_def)
  have uniq: "c1 = c2"
    if "c1 \<in> set (registered_children pool)" "c2 \<in> set (registered_children pool)"
      "set (node_parents (nodes pool ! c1)) = set (node_parents (nodes pool ! c2))" for c1 c2
    using w that unfolding wf_pool_iff by blast
  have hd_in: "hd ps \<in> set ps" using ne by simp
  have fresh: "set (node_parents (nodes pool ! c)) \<noteq> set ps"
    if c: "c \<in> set (registered_children pool)" for c
  proof
    assume eq: "set (node_parents (nodes pool ! c)) = set ps"
    with hd_in have "hd ps \<in> set (node_parents (nodes pool ! c))" by simp
    from par [OF c this] have "c \<in> set (my_children (nodes pool ! hd ps))" by simp
    from common_child_None [OF none ne this] eq show False by simp
  qed
  have "wf_pool pool'"
    unfolding wf_pool_iff rc len
  proof (intro conjI ballI impI)
    fix c assume c: "c \<in> set (registered_children pool) \<union> {k}"
    show "c < Suc k" using c lt [of c] by auto
    fix q assume q: "q \<in> set (node_parents (nodes pool' ! c))"
    show "q < Suc k"
    proof (cases "c = k")
      case True
      with q par_new v show ?thesis by (auto simp: k_def)
    next
      case False
      with c have c': "c \<in> set (registered_children pool)" by simp
      from q par_old [OF lt [OF c']] have q': "q \<in> set (node_parents (nodes pool ! c))" by simp
      from par [OF c' q'] show ?thesis by simp
    qed
    show "c \<in> set (my_children (nodes pool' ! q))"
    proof (cases "c = k")
      case True
      with q par_new have qp: "q \<in> set ps" by simp
      with v have "q < k" by (simp add: k_def)
      from ch [OF this] qp True show ?thesis by simp
    next
      case False
      with c have c': "c \<in> set (registered_children pool)" by simp
      from q par_old [OF lt [OF c']] have q': "q \<in> set (node_parents (nodes pool ! c))" by simp
      from par [OF c' q'] have "q < k" and "c \<in> set (my_children (nodes pool ! q))" by simp_all
      with ch [of q] show ?thesis by simp
    qed
  next
    fix c1 c2
    assume c1: "c1 \<in> set (registered_children pool) \<union> {k}"
      and c2: "c2 \<in> set (registered_children pool) \<union> {k}"
      and eq: "set (node_parents (nodes pool' ! c1)) = set (node_parents (nodes pool' ! c2))"
    show "c1 = c2"
    proof (cases "c1 = k")
      case k1: True
      show ?thesis
      proof (cases "c2 = k")
        case True
        with k1 show ?thesis by simp
      next
        case False
        with c2 have c2': "c2 \<in> set (registered_children pool)" by simp
        from eq k1 par_new par_old [OF lt [OF c2']]
        have "set (node_parents (nodes pool ! c2)) = set ps" by simp
        with fresh [OF c2'] show ?thesis by simp
      qed
    next
      case n1: False
      with c1 have c1': "c1 \<in> set (registered_children pool)" by simp
      show ?thesis
      proof (cases "c2 = k")
        case True
        from eq True par_new par_old [OF lt [OF c1']]
        have "set (node_parents (nodes pool ! c1)) = set ps" by simp
        with fresh [OF c1'] show ?thesis by simp
      next
        case False
        with c2 have c2': "c2 \<in> set (registered_children pool)" by simp
        from eq par_old [OF lt [OF c1']] par_old [OF lt [OF c2']]
        have "set (node_parents (nodes pool ! c1)) = set (node_parents (nodes pool ! c2))" by simp
        with c1' c2' show ?thesis by (rule uniq)
      qed
    qed
  qed
  then show ?thesis by (simp add: pool'_def)
qed

lemma wf_pool_create_node:
  assumes w: "wf_pool pool" and ok: "request_ok pool r"
  shows "wf_pool (fst (create_node pool r))"
proof (cases r)
  case (MeshNodeRequest owner e)
  show ?thesis
  proof (cases "mesh_node_map pool e")
    case None
    have "wf_pool (fst (create_mesh_node pool owner e))"
      by (rule wf_pool_append [OF w])
         (simp add: create_mesh_node_def get_mesh_node_def add_managed_mesh_node_def
            add_managed_node_def None Let_def, simp)
    then show ?thesis by (simp add: MeshNodeRequest)
  next
    case (Some n)
    then show ?thesis using w
      by (simp add: MeshNodeRequest create_mesh_node_def get_mesh_node_def)
  qed
next
  case (EdgeNodeRequest owner p1 p2 x)
  show ?thesis
  proof (cases "common_child pool [p1, p2]")
    case None
    have "wf_pool (with_child pool \<lparr>node_kind = EdgeNode, node_owner = owner,
        node_parents = [p1, p2], node_weights = [x], node_entity = None, my_children = []\<rparr> [p1, p2])"
      using ok by (intro wf_pool_with_child [OF w _ _ None]) (simp_all add: request_ok_def EdgeNodeRequest)
    then show ?thesis by (simp add: EdgeNodeRequest create_edge_node_cases None)
  next
    case (Some n)
    then show ?thesis using w by (simp add: EdgeNodeRequest create_edge_node_cases)
  qed
next
  case (MidSideNodeRequest owner p1 p2 e)
  define key where "key = (if p1 < p2 then (p1, p2) else (p2, p1))"
  show ?thesis
  proof (cases "my_midside_node_map pool key")
    case None
    have "wf_pool (fst (create_midside_node pool owner p1 p2 e))"
      by (rule wf_pool_append [OF w])
         (simp add: create_midside_node_def add_managed_node_def None [unfolded key_def] Let_def, simp)
    then show ?thesis by (simp add: MidSideNodeRequest)
  next
    case (Some n)
    then show ?thesis using w
      by (simp add: MidSideNodeRequest create_midside_node_def key_def Let_def)
  qed
next
  case (SteinerNodeRequest owner ps ws)
  have "wf_pool (fst (create_steiner_node pool owner ps ws))"
    by (rule wf_pool_append [OF w]) (simp add: create_steiner_node_def add_managed_node_def, simp)
  then show ?thesis by (simp add: SteinerNodeRequest)
next
  case (ChildNodeRequest owner ps ws)
  show ?thesis
  proof (cases "common_child pool ps")
    case None
    have "wf_pool (with_child pool \<lparr>node_kind = ChildNode, node_owner = owner,
        node_parents = ps, node_weights = ws, node_entity = None, my_children = []\<rparr> ps)"
      using ok by (intro wf_pool_with_child [OF w _ _ None])
        (simp_all add: request_ok_def ChildNodeRequest list_all_iff)
    then show ?thesis by (simp add: ChildNodeRequest create_child_node_cases None)
  next
    case (Some n)
    then show ?thesis using w by (simp add: ChildNodeRequest create_child_node_cases)
  qed
qed

lemma wf_pool_create_nodes:
  "wf_pool pool \<Longrightarrow> create_nodes pool rs = Some pool' \<Longrightarrow> wf_pool pool'"
proof (induction rs arbitrary: pool)
  case Nil
  then show ?case by simp
next
  case (Cons r rs)
  from Cons.prems(2) have ok: "request_ok pool r"
    and rest: "create_nodes (fst (create_node pool r)) rs = Some pool'"
    by (simp_all split: if_splits)
  from wf_pool_create_node [OF Cons.prems(1) ok] rest show ?case by (rule Cons.IH)
qed

lemma wf_pool_empty: "wf_pool empty_pool"
  by (simp add: wf_pool_def empty_pool_def registered_children_def)



lemma common_child_found:
  assumes w: "wf_pool pool" and n: "n \<in> set (registered_children pool)"
    and eq: "set (node_parents (nodes pool ! n)) = set ps" and ne: "ps \<noteq> []"
  shows "common_child pool ps = Some n"
proof -
  obtain p rest where ps: "ps = p # rest" using ne by (cases ps) auto
  let ?P = "\<lambda>c. set (node_parents (nodes pool ! c)) = set ps"
  have "p \<in> set (node_parents (nodes pool ! n))" using eq ps by simp
  with w n have p: "p < length (nodes pool)" and np: "n \<in> set (my_children (nodes pool ! p))"
    by (simp_all add: wf_pool_iff)
  have "find ?P (my_children (nodes pool ! p)) \<noteq> None"
    using np eq by (auto simp: find_None_iff)
  then obtain c where c: "find ?P (my_children (nodes pool ! p)) = Some c" by auto
  then have cc: "c \<in> set (my_children (nodes pool ! p))" and cp: "?P c"
    by (auto simp: find_Some_iff)
  from cc p have "c \<in> set (registered_children pool)"
    by (auto simp: registered_children_iff)
  moreover have "set (node_parents (nodes pool ! c)) = set (node_parents (nodes pool ! n))"
    using cp eq by simp
  ultimately have "c = n" using w n unfolding wf_pool_iff by blast
  with c show ?thesis by (simp add: common_child_def ps)
qed

lemma holds_node_after_child:
  assumes w: "wf_pool pool" and ne: "ps \<noteq> []" and v: "\<forall>p\<in>set ps. p < length (nodes pool)"
    and np: "node_parents new = ps" and e: "my_children new = []"
    and c: "(case common_child pool ps of Some subnode \<Rightarrow> (pool, subnode)
             | None \<Rightarrow> (with_child pool new ps, length (nodes pool))) = (pool1, n)"
  shows "n \<in> set (registered_children pool1) \<and> set (node_parents (nodes pool1 ! n)) = set ps"
proof (cases "common_child pool ps")
  case None
  with c have p1: "pool1 = with_child pool new ps" and n: "n = length (nodes pool)" by simp_all
  show ?thesis
    unfolding p1 n using registered_with_child [OF v e] ne
    by (simp add: with_child_parents np)
next
  case (Some m)
  with c have p1: "pool1 = pool" and n: "n = m" by simp_all
  from common_child_Some [OF Some] have m: "m \<in> set (my_children (nodes pool ! hd ps))"
    and eq: "set (node_parents (nodes pool ! m)) = set ps" by simp_all
  have "hd ps < length (nodes pool)" using v ne by simp
  with m have "m \<in> set (registered_children pool)" by (auto simp: registered_children_iff)
  with eq show ?thesis by (simp add: p1 n)
qed

lemma holds_node_created:
  assumes w: "wf_pool pool" and ok: "request_ok pool r" and ns: "\<not> is_steiner r"
    and c: "create_node pool r = (pool1, n)"
  shows "holds_node pool1 r n"
proof (cases r)
  case (MeshNodeRequest owner e)
  with c show ?thesis
    by (auto simp: create_mesh_node_def get_mesh_node_def add_managed_mesh_node_def
        add_managed_node_def Let_def split: option.splits)
next
  case (EdgeNodeRequest owner p1 p2 x)
  from c have "(case common_child pool [p1, p2] of Some subnode \<Rightarrow> (pool, subnode)
      | None \<Rightarrow> (with_child pool \<lparr>node_kind = EdgeNode, node_owner = owner,
          node_parents = [p1, p2], node_weights = [x], node_entity = None, my_children = []\<rparr> [p1, p2],
          length (nodes pool))) = (pool1, n)"
    by (simp add: EdgeNodeRequest create_edge_node_cases)
  from holds_node_after_child [OF w _ _ _ _ this] ok show ?thesis
    by (simp add: EdgeNodeRequest request_ok_def)
next
  case (MidSideNodeRequest owner p1 p2 e)
  with c show ?thesis
    by (auto simp: create_midside_node_def add_managed_node_def Let_def
        split: option.splits if_splits)
next
  case (SteinerNodeRequest owner ps ws)
  with ns show ?thesis by simp
next
  case (ChildNodeRequest owner ps ws)
  from c have "(case common_child pool ps of Some subnode \<Rightarrow> (pool, subnode)
      | None \<Rightarrow> (with_child pool \<lparr>node_kind = ChildNode, node_owner = owner,
          node_parents = ps, node_weights = ws, node_entity = None, my_children = []\<rparr> ps,
          length (nodes pool))) = (pool1, n)"
    by (simp add: ChildNodeRequest create_child_node_cases)
  from holds_node_after_child [OF w _ _ _ _ this] ok show ?thesis
    by (simp add: ChildNodeRequest request_ok_def list_all_iff)
qed

lemma registered_extends:
  assumes x: "extends pool pool'" and n: "n \<in> set (registered_children pool)"
  shows "n \<in> set (registered_children pool')"
proof -
  from n obtain p where p: "p < length (nodes pool)" and c: "n \<in> set (my_children (nodes pool ! p))"
    by (auto simp: registered_children_iff)
  from x p have "p < length (nodes pool')"
    and "set (my_children (nodes pool ! p)) \<subseteq> set (my_children (nodes pool' ! p))"
    by (simp_all add: extends_def)
  with c show ?thesis by (auto simp: registered_children_iff)
qed

lemma holds_node_extends:
  assumes w: "wf_pool pool" and x: "extends pool pool'" and h: "holds_node pool r n"
  shows "holds_node pool' r n"
proof -
  have reg: "n \<in> set (registered_children pool') \<and>
      node_parents (nodes pool' ! n) = node_parents (nodes pool ! n)"
    if n: "n \<in> set (registered_children pool)"
  proof -
    from w n have "n < length (nodes pool)" by (simp add: wf_pool_iff)
    with x have "node_parents (nodes pool' ! n) = node_parents (nodes pool ! n)"
      by (simp add: extends_def)
    with registered_extends [OF x n] show ?thesis by simp
  qed
  show ?thesis
  proof (cases r)
    case (MeshNodeRequest owner e)
    with h x show ?thesis by (simp add: extends_def)
  next
    case (EdgeNodeRequest owner p1 p2 pos)
    with h reg show ?thesis by simp
  next
    case (MidSideNodeRequest owner p1 p2 e)
    with h have "my_midside_node_map pool (if p1 < p2 then (p1, p2) else (p2, p1)) = Some n"
      by simp
    with x have "my_midside_node_map pool' (if p1 < p2 then (p1, p2) else (p2, p1)) = Some n"
      unfolding extends_def by blast
    then show ?thesis by (simp add: MidSideNodeRequest)
  next
    case (SteinerNodeRequest owner ps ws)
    with h show ?thesis by simp
  next
    case (ChildNodeRequest owner ps ws)
    with h reg show ?thesis by simp
  qed
qed

lemma holds_node_found:
  assumes w: "wf_pool pool" and h: "holds_node pool r n" and s: "same_request r r'"
    and ok: "request_ok pool0 r"
  shows "create_node pool r' = (pool, n)"
proof (cases r)
  case r: (MeshNodeRequest owner e)
  with s obtain owner' where r': "r' = MeshNodeRequest owner' e" by (cases r') auto
  from h show ?thesis by (simp add: r r' create_mesh_node_def get_mesh_node_def)
next
  case r: (EdgeNodeRequest owner p1 p2 x)
  with s obtain owner' q1 q2 x' where r': "r' = EdgeNodeRequest owner' q1 q2 x'"
    and eq: "{p1, p2} = {q1, q2}" by (cases r') auto
  from h r eq have "n \<in> set (registered_children pool)"
    and "set (node_parents (nodes pool ! n)) = set [q1, q2]" by simp_all
  from common_child_found [OF w this] show ?thesis
    by (simp add: r' create_edge_node_cases)
next
  case r: (MidSideNodeRequest owner p1 p2 e)
  with s obtain owner' q1 q2 e' where r': "r' = MidSideNodeRequest owner' q1 q2 e'"
    and eq: "{p1, p2} = {q1, q2}" by (cases r') auto
  from eq have "(if p1 < p2 then (p1, p2) else (p2, p1)) = (if q1 < q2 then (q1, q2) else (q2, q1))"
    by (auto simp: doubleton_eq_iff)
  with h show ?thesis by (simp add: r r' create_midside_node_def Let_def)
next
  case (SteinerNodeRequest owner ps ws)
  with h show ?thesis by simp
next
  case r: (ChildNodeRequest owner ps ws)
  with s obtain owner' qs ws' where r': "r' = ChildNodeRequest owner' qs ws'"
    and eq: "set ps = set qs" by (cases r') auto
  from ok r have "ps \<noteq> []" by (simp add: request_ok_def)
  with eq have ne: "qs \<noteq> []" by auto
  from h r eq have "n \<in> set (registered_children pool)"
    and "set (node_parents (nodes pool ! n)) = set qs" by simp_all
  from common_child_found [OF w this ne] show ?thesis
    by (simp add: r' create_child_node_cases)
qed

lemma wf_pool_reachable:
  "create_nodes empty_pool rs = Some pool \<Longrightarrow> wf_pool pool"
  using wf_pool_empty by (rule wf_pool_create_nodes)

text \<open>
  Claim C3, as the code has it. Take a well-formed pool (every pool built from the empty
  one by requests is) and a request for a mesh node, an edge node, a mid-side node or a
  child node whose parents are nodes of the pool. Whatever requests are served after it,
  a later request with the same creation rule and the same parent set (the same mesh
  entity for a mesh node; the order of the parents, the owner, the position, the weights
  and the entity of a mid-side node play no part) is answered with the node the first
  request was answered with, and leaves the pool as it was: no node is added.
\<close>

theorem node_creation_idempotent:
  assumes w: "wf_pool pool" and ok: "request_ok pool r" and ns: "\<not> is_steiner r"
    and c: "create_node pool r = (pool1, n)"
    and rs: "create_nodes pool1 rs = Some pool2"
    and s: "same_request r r'"
  shows "create_node pool2 r' = (pool2, n)"
proof -
  have w1: "wf_pool pool1" using wf_pool_create_node [OF w ok] c by simp
  have h1: "holds_node pool1 r n" using w ok ns c by (rule holds_node_created)
  have w2: "wf_pool pool2" using w1 rs by (rule wf_pool_create_nodes)
  have h2: "holds_node pool2 r n"
    using w1 extends_create_nodes [OF rs] h1 by (rule holds_node_extends)
  from w2 h2 s ok show ?thesis by (rule holds_node_found)
qed

lemmas create_defs =
  create_mesh_node_def get_mesh_node_def add_managed_mesh_node_def add_managed_node_def
  create_edge_node_def common_child_def add_child_def create_steiner_node_def
  create_midside_node_def create_child_internal_or_face_node_def request_ok_def Let_def

lemma pool_ex_eq:
  "pool_ex =
     \<lparr>nodes =
        [\<lparr>node_kind = MeshNode, node_owner = 1, node_parents = [], node_weights = [],
          node_entity = Some 101, my_children = []\<rparr>,
         \<lparr>node_kind = MeshNode, node_owner = 1, node_parents = [], node_weights = [],
          node_entity = Some 102, my_children = []\<rparr>,
         \<lparr>node_kind = MeshNode, node_owner = 1, node_parents = [], node_weights = [],
          node_entity = Some 103, my_children = []\<rparr>],
      mesh_node_map = [101 \<mapsto> 0, 102 \<mapsto> 1, 103 \<mapsto> 2],
      my_midside_node_map = Map.empty\<rparr>"
  by (simp add: pool_ex_def empty_pool_def create_defs numeral_2_eq_2)

lemma pool_ex_wf: "wf_pool pool_ex"
  by (simp add: wf_pool_def registered_children_def pool_ex_eq)

lemma first_ex: "snd (create_node pool_ex request_ex) = 3"
  by (simp add: request_ex_def create_defs pool_ex_eq)

lemma first_nodes_ex: "length (nodes (fst (create_node pool_ex request_ex))) = 4"
  by (simp add: request_ex_def create_defs pool_ex_eq)

lemma run_ex: "create_nodes (fst (create_node pool_ex request_ex)) requests_ex \<noteq> None"
  by (simp add: requests_ex_def request_ex_def create_defs pool_ex_eq)

theorem node_creation_idempotent_witness:
  "wf_pool pool_ex \<and> request_ok pool_ex request_ex \<and> \<not> is_steiner request_ex \<and>
   snd (create_node pool_ex request_ex) = 3 \<and>
   create_nodes (fst (create_node pool_ex request_ex)) requests_ex \<noteq> None \<and>
   same_request request_ex request_again_ex \<and>
   create_node (the (create_nodes (fst (create_node pool_ex request_ex)) requests_ex))
       request_again_ex =
     (the (create_nodes (fst (create_node pool_ex request_ex)) requests_ex), 3)"
proof -
  have ok: "request_ok pool_ex request_ex"
    by (simp add: request_ok_def request_ex_def pool_ex_eq)
  have ns: "\<not> is_steiner request_ex" by (simp add: request_ex_def)
  have c: "create_node pool_ex request_ex = (fst (create_node pool_ex request_ex), 3)"
    using first_ex by (simp add: prod_eq_iff)
  have rs: "create_nodes (fst (create_node pool_ex request_ex)) requests_ex =
      Some (the (create_nodes (fst (create_node pool_ex request_ex)) requests_ex))"
    using run_ex by simp
  have s: "same_request request_ex request_again_ex"
    by (simp add: request_ex_def request_again_ex_def insert_commute)
  note node_creation_idempotent [OF pool_ex_wf ok ns c rs s]
  with pool_ex_wf ok ns first_ex run_ex s show ?thesis by blast
qed

text \<open>
  The claim as stated fails for Steiner nodes: \<^verbatim>\<open>create_steiner_node\<close> looks nothing up,
  so two requests with the same owner, parents and weights give two nodes.
\<close>

theorem steiner_node_counterexample:
  "same_request (SteinerNodeRequest 1 [0, 1, 2] [1 / 3, 1 / 3, 1 / 3])
                (SteinerNodeRequest 1 [0, 1, 2] [1 / 3, 1 / 3, 1 / 3]) \<and>
   snd (create_steiner_node pool_ex 1 [0, 1, 2] [1 / 3, 1 / 3, 1 / 3]) = 3 \<and>
   snd (create_steiner_node (fst (create_steiner_node pool_ex 1 [0, 1, 2] [1 / 3, 1 / 3, 1 / 3]))
          1 [0, 1, 2] [1 / 3, 1 / 3, 1 / 3]) = 4 \<and>
   length (nodes (fst (create_steiner_node
          (fst (create_steiner_node pool_ex 1 [0, 1, 2] [1 / 3, 1 / 3, 1 / 3]))
          1 [0, 1, 2] [1 / 3, 1 / 3, 1 / 3]))) = 5"
  by (simp add: create_steiner_node_def add_managed_node_def pool_ex_eq)


section \<open>Properties of the hanging edge node exchange\<close>

lemma pack_to_procs_allocated:
  "allocated cs \<Longrightarrow>
   allocated (pack_to_procs sz me a procs cs) \<and>
   send_size (pack_to_procs sz me a procs cs) = send_size cs \<and>
   send_buffer (pack_to_procs sz me a procs cs) q =
     send_buffer cs q @ (if q \<noteq> me then replicate (count_list procs q) a else [])"
proof (induction procs arbitrary: cs)
  case Nil
  then show ?case by simp
next
  case (Cons p procs)
  let ?cs = "if p \<noteq> me then pack_into_buffer sz cs p a else cs"
  have a: "allocated ?cs" using Cons.prems by (simp add: pack_into_buffer_def)
  have b: "send_size ?cs = send_size cs" using Cons.prems by (simp add: pack_into_buffer_def)
  have c: "send_buffer ?cs q = send_buffer cs q @ (if p \<noteq> me \<and> p = q then [a] else [])"
    using Cons.prems by (simp add: pack_into_buffer_def)
  from Cons.IH [OF a] b c show ?case
    by (auto simp: replicate_app_Cons_same)
qed

lemma pack_to_procs_sizing:
  "\<not> allocated cs \<Longrightarrow>
   \<not> allocated (pack_to_procs sz me a procs cs) \<and>
   send_buffer (pack_to_procs sz me a procs cs) = send_buffer cs \<and>
   send_size (pack_to_procs sz me a procs cs) q =
     send_size cs q + (if q \<noteq> me then count_list procs q * sz a else 0)"
proof (induction procs arbitrary: cs)
  case Nil
  then show ?case by simp
next
  case (Cons p procs)
  let ?cs = "if p \<noteq> me then pack_into_buffer sz cs p a else cs"
  have a: "\<not> allocated ?cs" using Cons.prems by (simp add: pack_into_buffer_def)
  have b: "send_buffer ?cs = send_buffer cs" using Cons.prems by (simp add: pack_into_buffer_def)
  have c: "send_size ?cs q = send_size cs q + (if p \<noteq> me \<and> p = q then sz a else 0)"
    using Cons.prems by (simp add: pack_into_buffer_def)
  from Cons.IH [OF a] b c show ?case by auto
qed

lemma pack_phase_allocated:
  "allocated cs \<Longrightarrow>
   allocated (pack_phase sz spi me edges cs) \<and>
   send_size (pack_phase sz spi me edges cs) = send_size cs \<and>
   send_buffer (pack_phase sz spi me edges cs) q = send_buffer cs q @ sent_to spi me q edges"
proof (induction edges arbitrary: cs)
  case Nil
  then show ?case by (simp add: sent_to_def)
next
  case (Cons a edges)
  note p = pack_to_procs_allocated [OF Cons.prems, of sz me a "spi (parent_node_keys a)" q]
  from Cons.IH [of "pack_to_procs sz me a (spi (parent_node_keys a)) cs"] p
  show ?case by (simp add: sent_to_def)
qed

lemma pack_phase_sizing:
  "\<not> allocated cs \<Longrightarrow>
   \<not> allocated (pack_phase sz spi me edges cs) \<and>
   send_buffer (pack_phase sz spi me edges cs) = send_buffer cs \<and>
   send_size (pack_phase sz spi me edges cs) q =
     send_size cs q + sum_list (map sz (sent_to spi me q edges))"
proof (induction edges arbitrary: cs)
  case Nil
  then show ?case by (simp add: sent_to_def)
next
  case (Cons a edges)
  note p = pack_to_procs_sizing [OF Cons.prems, of sz me a "spi (parent_node_keys a)" q]
  from Cons.IH [of "pack_to_procs sz me a (spi (parent_node_keys a)) cs"] p
  show ?case by (simp add: sent_to_def sum_list_replicate)
qed

lemma hanging_edge_sends_spec:
  assumes "2 \<le> parallel_size"
  shows "\<exists>c. hanging_edge_sends sz spi parallel_size me ns = Some c \<and>
           send_buffer c q = sent_to spi me q (shared_edge_nodes ns) \<and>
           send_size c q = sum_list (map sz (send_buffer c q))"
proof -
  define edges where "edges = shared_edge_nodes ns"
  define c0 where "c0 = pack_phase sz spi me edges new_comm"
  define c2 where "c2 = pack_phase sz spi me edges (allocate_buffers c0)"
  have n: "\<not> allocated new_comm" by (simp add: new_comm_def)
  note s0 = pack_phase_sizing [OF n, of sz spi me edges q, folded c0_def]
  have a1: "allocated (allocate_buffers c0)" by (simp add: allocate_buffers_def)
  note s2 = pack_phase_allocated [OF a1, of sz spi me edges q, folded c2_def]
  have "hanging_edge_sends sz spi parallel_size me ns = Some c2"
    using assms by (simp add: hanging_edge_sends_def Let_def c2_def c0_def edges_def)
  moreover have "send_buffer c2 q = sent_to spi me q edges"
    using s2 s0 by (simp add: allocate_buffers_def new_comm_def)
  moreover have "send_size c2 q = sum_list (map sz (sent_to spi me q edges))"
    using s2 s0 by (simp add: allocate_buffers_def new_comm_def)
  ultimately show ?thesis by (simp add: edges_def)
qed

lemma in_sent_to:
  "a \<in> set (sent_to spi me q edges) \<longleftrightarrow>
     q \<noteq> me \<and> a \<in> set edges \<and> q \<in> set (spi (parent_node_keys a))"
  by (auto simp: sent_to_def count_list_0_iff)

lemma in_shared_procs_intersection:
  "q \<in> set (shared_procs_intersection sh keys) \<longleftrightarrow>
     keys \<noteq> [] \<and> (\<forall>k\<in>set keys. q \<in> set (sh k))"
  by (cases keys) (auto simp: shared_procs_intersection_def list_all_iff)

lemma in_received:
  assumes "2 \<le> parallel_size"
  shows "a \<in> set (received (\<lambda>i. hanging_edge_sends sz (spi i) parallel_size i (ns i)) parallel_size q)
     \<longleftrightarrow> (\<exists>r<parallel_size. r \<noteq> q \<and> a \<in> set (shared_edge_nodes (ns r)) \<and>
            q \<in> set (spi r (parent_node_keys a)))"
proof -
  have rb: "recv_buffer (\<lambda>i. hanging_edge_sends sz (spi i) parallel_size i (ns i)) q r =
      sent_to (spi r) r q (shared_edge_nodes (ns r))" for r
    using hanging_edge_sends_spec [OF assms, of sz "spi r" r "ns r" q]
    by (auto simp: recv_buffer_def)
  show ?thesis
    by (auto simp: received_def rb in_sent_to)
qed


text \<open>
  Claim C5, as the code has it. On two or more processors, processor \<open>me\<close> sizes and
  then fills its send buffers with the same ancestries (the size counted in the first
  phase is the size of what the second phase stores), and the ancestry of a shared cut
  edge is in the buffer for \<open>q\<close> exactly when \<open>q\<close> is another processor that
  \<^verbatim>\<open>shared_procs_intersection\<close> names for the parent keys of the ancestry. A processor
  receives exactly the ancestries the other processors stored for it and hands each of
  them to \<^verbatim>\<open>build_missing_child_nodes\<close>. The processors in the intersection are those
  sharing every parent node of the ancestry.
\<close>

theorem hanging_edge_ancestries_sent:
  assumes "2 \<le> parallel_size"
  shows "(\<exists>c. hanging_edge_sends sz (spi me) parallel_size me (ns me) = Some c \<and>
            (\<forall>q. send_size c q = sum_list (map sz (send_buffer c q))) \<and>
            (\<forall>q a. a \<in> set (send_buffer c q) \<longleftrightarrow>
               q \<noteq> me \<and> a \<in> set (shared_edge_nodes (ns me)) \<and>
               q \<in> set (spi me (parent_node_keys a))))
       \<and> (\<forall>q a. a \<in> set (received (\<lambda>i. hanging_edge_sends sz (spi i) parallel_size i (ns i))
                            parallel_size q) \<longleftrightarrow>
               (\<exists>r<parallel_size. r \<noteq> q \<and> a \<in> set (shared_edge_nodes (ns r)) \<and>
                  q \<in> set (spi r (parent_node_keys a))))
       \<and> build_parallel_hanging_edge_nodes sz spi parallel_size ns build me mesh =
            foldl build mesh
              (received (\<lambda>i. hanging_edge_sends sz (spi i) parallel_size i (ns i)) parallel_size me)
       \<and> (p \<in> set (shared_procs_intersection sh keys) \<longleftrightarrow>
            keys \<noteq> [] \<and> (\<forall>k\<in>set keys. p \<in> set (sh k)))"
proof (intro conjI)
  obtain c where c: "hanging_edge_sends sz (spi me) parallel_size me (ns me) = Some c"
    using hanging_edge_sends_spec [OF assms, of sz "spi me" me "ns me" 0] by blast
  have b: "send_buffer c q = sent_to (spi me) me q (shared_edge_nodes (ns me)) \<and>
           send_size c q = sum_list (map sz (send_buffer c q))" for q
    using hanging_edge_sends_spec [OF assms, of sz "spi me" me "ns me" q] c by simp
  show "\<exists>c. hanging_edge_sends sz (spi me) parallel_size me (ns me) = Some c \<and>
            (\<forall>q. send_size c q = sum_list (map sz (send_buffer c q))) \<and>
            (\<forall>q a. a \<in> set (send_buffer c q) \<longleftrightarrow>
               q \<noteq> me \<and> a \<in> set (shared_edge_nodes (ns me)) \<and>
               q \<in> set (spi me (parent_node_keys a)))"
    using c b by (simp add: in_sent_to)
  show "\<forall>q a. a \<in> set (received (\<lambda>i. hanging_edge_sends sz (spi i) parallel_size i (ns i))
                            parallel_size q) \<longleftrightarrow>
               (\<exists>r<parallel_size. r \<noteq> q \<and> a \<in> set (shared_edge_nodes (ns r)) \<and>
                  q \<in> set (spi r (parent_node_keys a)))"
    using in_received [OF assms] by blast
  show "build_parallel_hanging_edge_nodes sz spi parallel_size ns build me mesh =
            foldl build mesh
              (received (\<lambda>i. hanging_edge_sends sz (spi i) parallel_size i (ns i)) parallel_size me)"
    using assms by (simp add: build_parallel_hanging_edge_nodes_def)
  show "p \<in> set (shared_procs_intersection sh keys) \<longleftrightarrow>
            keys \<noteq> [] \<and> (\<forall>k\<in>set keys. p \<in> set (sh k))"
    by (rule in_shared_procs_intersection)
qed

lemma spi_ex:
  "shared_procs_intersection (sharing_ex 0) (parent_node_keys cut_edge_ex) = [1]"
  by (simp add: shared_procs_intersection_def sharing_ex_def cut_edge_ex_def)

lemma edges_ex:
  "shared_edge_nodes (nodes_ex r) = (if r = 0 then [cut_edge_ex] else [])"
  by (simp add: shared_edge_nodes_def nodes_ex_def)

lemma comms_ex_eq:
  "comms_ex = (\<lambda>i. hanging_edge_sends (\<lambda>a. 1) (shared_procs_intersection (sharing_ex i)) 3 i (nodes_ex i))"
  by (rule ext) (simp only: comms_ex_def)

theorem hanging_edge_ancestries_sent_witness:
  "(2 :: nat) \<le> 3 \<and> cut_edge_ex \<in> set (received comms_ex 3 1)"
proof -
  have h: "(2 :: nat) \<le> 3" by simp
  have e: "\<exists>r<3. r \<noteq> (1 :: nat) \<and> cut_edge_ex \<in> set (shared_edge_nodes (nodes_ex r)) \<and>
          1 \<in> set (shared_procs_intersection (sharing_ex r) (parent_node_keys cut_edge_ex))"
    by (rule exI [of _ 0]) (simp add: edges_ex spi_ex)
  note t = hanging_edge_ancestries_sent [OF h, where sz = "\<lambda>a. 1"
        and spi = "\<lambda>i. shared_procs_intersection (sharing_ex i)" and ns = nodes_ex]
  have "cut_edge_ex \<in> set (received
      (\<lambda>i. hanging_edge_sends (\<lambda>a. 1) (shared_procs_intersection (sharing_ex i)) 3 i (nodes_ex i)) 3 1)
     \<longleftrightarrow> (\<exists>r<3. r \<noteq> (1 :: nat) \<and> cut_edge_ex \<in> set (shared_edge_nodes (nodes_ex r)) \<and>
          1 \<in> set (shared_procs_intersection (sharing_ex r) (parent_node_keys cut_edge_ex)))"
    by (rule t [THEN conjunct2, THEN conjunct1, THEN spec, THEN spec])
  with e have "cut_edge_ex \<in> set (received
      (\<lambda>i. hanging_edge_sends (\<lambda>a. 1) (shared_procs_intersection (sharing_ex i)) 3 i (nodes_ex i)) 3 1)"
    by (rule rev_iffD2)
  then have "cut_edge_ex \<in> set (received comms_ex 3 1)"
    by (simp only: comms_ex_eq)
  with h show ?thesis by (rule conjI)
qed

text \<open>
  The claim as stated fails: processor 2 shares the ancestor node 10 of the cut edge with
  processor 0, but not node 11, and receives nothing; processor 1, which shares both,
  receives the ancestry.
\<close>

lemma received_ex:
  "a \<in> set (received comms_ex 3 q) \<longleftrightarrow> a = cut_edge_ex \<and> q = 1"
proof -
  have "a \<in> set (received comms_ex 3 q) \<longleftrightarrow>
      (\<exists>r<3. r \<noteq> q \<and> a \<in> set (shared_edge_nodes (nodes_ex r)) \<and>
         q \<in> set (shared_procs_intersection (sharing_ex r) (parent_node_keys a)))"
    unfolding comms_ex_eq
    by (rule in_received) simp
  also have "\<dots> \<longleftrightarrow> a = cut_edge_ex \<and> q = 1"
  proof
    assume "\<exists>r<3. r \<noteq> q \<and> a \<in> set (shared_edge_nodes (nodes_ex r)) \<and>
         q \<in> set (shared_procs_intersection (sharing_ex r) (parent_node_keys a))"
    then obtain r where r: "r \<noteq> q" "a \<in> set (shared_edge_nodes (nodes_ex r))"
      "q \<in> set (shared_procs_intersection (sharing_ex r) (parent_node_keys a))" by blast
    from r(2) have r0: "r = 0" and a: "a = cut_edge_ex"
      by (simp_all add: edges_ex split: if_splits)
    from r(3) have "q = 1" unfolding r0 a spi_ex by simp
    with a show "a = cut_edge_ex \<and> q = 1" by simp
  next
    assume "a = cut_edge_ex \<and> q = 1"
    then show "\<exists>r<3. r \<noteq> q \<and> a \<in> set (shared_edge_nodes (nodes_ex r)) \<and>
         q \<in> set (shared_procs_intersection (sharing_ex r) (parent_node_keys a))"
      by (intro exI [of _ 0]) (simp add: edges_ex spi_ex)
  qed
  finally show ?thesis .
qed

theorem shares_one_ancestor_counterexample:
  "2 \<in> set (sharing_ex 0 10) \<and> 10 \<in> set (parent_node_keys cut_edge_ex) \<and>
   cut_edge_ex \<in> set (shared_edge_nodes (nodes_ex 0)) \<and>
   received comms_ex 3 2 = [] \<and> cut_edge_ex \<in> set (received comms_ex 3 1)"
proof (intro conjI)
  show "2 \<in> set (sharing_ex 0 10)" by (simp add: sharing_ex_def)
  show "10 \<in> set (parent_node_keys cut_edge_ex)" by (simp add: cut_edge_ex_def)
  show "cut_edge_ex \<in> set (shared_edge_nodes (nodes_ex 0))" by (simp add: edges_ex)
  show "received comms_ex 3 2 = []"
  proof (cases "received comms_ex 3 2")
    case Nil
    then show ?thesis .
  next
    case (Cons a as)
    then have "a \<in> set (received comms_ex 3 2)" by simp
    then have "(2 :: nat) = 1" by (simp only: received_ex)
    then show ?thesis by simp
  qed
  show "cut_edge_ex \<in> set (received comms_ex 3 1)" by (simp only: received_ex)
qed

section \<open>Properties of the prolongation search\<close>


















lemma nearest_facet_is_nearest:
  "nearest_facet d fs = Some f \<Longrightarrow> f \<in> set fs \<and> (\<forall>g\<in>set fs. d f \<le> d g)"
  by (auto simp: nearest_facet_def find_Some_iff list_all_iff)

lemma nearest_node_is_nearest:
  "nearest_node nd M ns = Some n \<Longrightarrow> n \<in> set ns \<and> nd n < M \<and> (\<forall>m\<in>set ns. nd n \<le> nd m)"
  by (auto simp: nearest_node_def find_Some_iff list_all_iff)



end
